theory Spec2Isabelle
  imports Main "HOL-Library.Sublist" "HOL-Library.AList"
begin

section \<open>Strings, integers and dictionaries of the source\<close>

text \<open>
  Python strings are modelled as \<open>string\<close>; a \<open>char\<close> stands for one code point
  below 256. Among those, the regular expression class \<open>\d\<close> is exactly \<open>0\<close>..\<open>9\<close>
  and \<open>str.strip()\<close> removes the twelve characters that \<open>str.isspace\<close> accepts.
  Page numbers are Python's unbounded integers, hence \<open>int\<close>. A \<open>dict\<close> keeps its
  keys in insertion order and an assignment to an existing key keeps the key's position:
  that is \<open>AList.update\<close> on an association list.
\<close>

type_synonym pages = "(int \<times> string) list"

definition is_digit :: "char \<Rightarrow> bool" where
  "is_digit c \<longleftrightarrow> c \<in> set ''0123456789''"

definition is_space :: "char \<Rightarrow> bool" where
  "is_space c \<longleftrightarrow> c \<in> {CHR 0x09, CHR 0x0A, CHR 0x0B, CHR 0x0C, CHR 0x0D,
     CHR 0x1C, CHR 0x1D, CHR 0x1E, CHR 0x1F, CHR 0x20, CHR 0x85, CHR 0xA0}"

text \<open>\<open>s.strip()\<close>: leading and trailing whitespace removed.\<close>

definition strip :: "string \<Rightarrow> string" where
  "strip s = rev (dropWhile is_space (rev (dropWhile is_space s)))"

text \<open>\<open>int(s)\<close> on a non-empty run of decimal digits.\<close>

definition digit_val :: "char \<Rightarrow> int" where
  "digit_val c = int (of_char c) - 48"

definition int_of_digits :: "string \<Rightarrow> int" where
  "int_of_digits ds = foldl (\<lambda>a c. 10 * a + digit_val c) 0 ds"

text \<open>\<open>str(i)\<close>, as the f-strings \<open>f"{i}"\<close> format an integer: decimal, no padding.\<close>

definition digit_char :: "nat \<Rightarrow> char" where
  "digit_char d = ''0123456789'' ! d"

fun digits :: "nat \<Rightarrow> string" where
  "digits n = (if n < 10 then [digit_char n] else digits (n div 10) @ [digit_char (n mod 10)])"

declare digits.simps [simp del]

definition str :: "int \<Rightarrow> string" where
  "str i = (if i < 0 then CHR ''-'' # digits (nat (- i)) else digits (nat i))"

text \<open>\<open>sep.join(xs)\<close>.\<close>

fun join :: "string \<Rightarrow> string list \<Rightarrow> string" where
  "join sep [] = []"
| "join sep [x] = x"
| "join sep (x # y # ys) = x @ sep @ join sep (y # ys)"

text \<open>\<open>dict(pairs)\<close>, \<open>len(d)\<close> is \<open>length\<close>, \<open>d.get(k, default)\<close>.\<close>

definition dict :: "(int \<times> string) list \<Rightarrow> pages" where
  "dict kvs = fold (\<lambda>(k, v) d. AList.update k v d) kvs []"

definition get :: "pages \<Rightarrow> int \<Rightarrow> string \<Rightarrow> string" where
  "get d k dflt = (case map_of d k of None \<Rightarrow> dflt | Some v \<Rightarrow> v)"

datatype error = KeyError int | ValueError | ServiceError string

section \<open>Module 2: the page parser\<close>

text \<open>
  \<^verbatim>\<open>page_pattern = r'## Page (\d+)\n\n(.*?)(?=\n\n---\n\n|\Z)'\<close> with \<^verbatim>\<open>re.DOTALL\<close>.
  The pattern is matched piece by piece. \<open>literal\<close> matches a fixed text at the start
  of the input and returns what follows it.
\<close>

definition separator :: string where
  "separator = ''\<newline>\<newline>---\<newline>\<newline>''"

fun literal :: "string \<Rightarrow> string \<Rightarrow> string option" where
  "literal [] s = Some s"
| "literal (p # ps) [] = None"
| "literal (p # ps) (c # cs) = (if p = c then literal ps cs else None)"

text \<open>
  \<^verbatim>\<open>(.*?)(?=\n\n---\n\n|\Z)\<close>: the lazy group takes the fewest characters (any
  character, newlines too) such that the separator or the end of input follows. The
  lookahead consumes nothing: the second component is the input left after the match.
\<close>

fun lazy_content :: "string \<Rightarrow> string \<times> string" where
  "lazy_content [] = ([], [])"
| "lazy_content (c # cs) =
     (if prefix separator (c # cs) then ([], c # cs)
      else (case lazy_content cs of (body, rest) \<Rightarrow> (c # body, rest)))"

text \<open>
  One attempt to match the pattern at the start of the input: the digits of group 1, the
  text of group 2 and the input after the match. \<^verbatim>\<open>\d+\<close> is greedy; giving back
  digits cannot help, since the next pattern character is a newline and the character
  after a shorter run is a digit.
\<close>

definition match_page :: "string \<Rightarrow> (string \<times> string \<times> string) option" where
  "match_page s =
     (case literal ''## Page '' s of
        None \<Rightarrow> None
      | Some s1 \<Rightarrow>
          (let ds = takeWhile is_digit s1; s2 = dropWhile is_digit s1 in
           if ds = [] then None
           else (case literal ''\<newline>\<newline>'' s2 of
                   None \<Rightarrow> None
                 | Some s3 \<Rightarrow>
                     (case lazy_content s3 of (body, rest) \<Rightarrow> Some (ds, body, rest)))))"

lemma literal_length: "literal p s = Some r \<Longrightarrow> length s = length p + length r"
  by (induction p s rule: literal.induct) (auto split: if_splits)

lemma lazy_content_length: "lazy_content s = (b, r) \<Longrightarrow> length s = length b + length r"
  by (induction s arbitrary: b r) (auto split: if_splits prod.splits)

lemma match_page_shorter:
  assumes "match_page s = Some (ds, body, rest)"
  shows "length rest < length s"
proof -
  from assms obtain s1 s3 where
    a: "literal ''## Page '' s = Some s1" and
    b: "literal ''\<newline>\<newline>'' (dropWhile is_digit s1) = Some s3" and
    c: "lazy_content s3 = (body, rest)"
    by (auto simp: match_page_def Let_def split: option.splits if_splits prod.splits)
  have "length (dropWhile is_digit s1) \<le> length s1"
    by (rule length_dropWhile_le)
  with literal_length[OF a] literal_length[OF b] lazy_content_length[OF c]
  show ?thesis by simp
qed

text \<open>
  \<^verbatim>\<open>re.findall(page_pattern, markdown_content, re.DOTALL)\<close>: the matches from left to
  right, not overlapping. After a match the scan goes on where the match ended; where the
  pattern does not match, it moves one character on.
\<close>

function findall :: "string \<Rightarrow> (string \<times> string) list" where
  "findall s =
     (case match_page s of
        Some (ds, body, rest) \<Rightarrow> (ds, body) # findall rest
      | None \<Rightarrow> (case s of [] \<Rightarrow> [] | c # cs \<Rightarrow> findall cs))"
  by pat_completeness auto
termination
  by (relation "measure length") (auto simp: match_page_shorter)

declare findall.simps [simp del]

text \<open>
  \<^verbatim>\<open>
  pages = {}
  for page_num, content in matches:
      pages[int(page_num)] = content.strip()
  return pages
  \<close>
\<close>

definition store_page :: "string \<times> string \<Rightarrow> pages \<Rightarrow> pages" where
  "store_page m pages = AList.update (int_of_digits (fst m)) (strip (snd m)) pages"

definition parse_markdown_by_pages :: "string \<Rightarrow> pages" where
  "parse_markdown_by_pages markdown_content = fold store_page (findall markdown_content) []"

section \<open>The external services\<close>

text \<open>
  \<^verbatim>\<open>client.chat.completions.create(model=..., messages=[...], max_tokens=...)\<close> is a
  call to a service outside the program. A request is the model name, the messages (role
  and content) and \<open>max_tokens\<close>; the constant \<open>temperature\<close> is left out. The call
  either returns \<open>response.choices[0].message.content\<close> or raises an exception, of
  which the model keeps the text \<open>str(e)\<close>.
\<close>

datatype request = Request (model: string) (messages: "(string \<times> string) list") (max_tokens: nat)

datatype outcome = Returned string | Raised string

text \<open>
  The analysis service of module 2 may answer the same request differently from call to
  call: its outcome is a function of the calls made before and of the request. The calls
  are logged, in order; an exception propagates as \<open>Inl\<close>.
\<close>

type_synonym service = "request list \<Rightarrow> request \<Rightarrow> outcome"

definition create :: "service \<Rightarrow> request list \<Rightarrow> request \<Rightarrow> request list \<times> (error + string)" where
  "create client log req =
     (log @ [req],
      case client log req of Returned content \<Rightarrow> Inr content | Raised e \<Rightarrow> Inl (ServiceError e))"

text \<open>The outcome of every logged call, in order.\<close>

definition outcomes :: "service \<Rightarrow> request list \<Rightarrow> outcome list" where
  "outcomes client log = map (\<lambda>k. client (take k log) (log ! k)) [0..<length log]"

section \<open>Module 2: single pass\<close>

definition single_pass_system_prompt :: string where
  "single_pass_system_prompt = join ''\<newline>''
     [''You are an expert document analyst specializing in extracting rules, guidelines, and constraints.'',
      '''',
      ''Your task:'',
      ''1. Analyze the complete markdown document provided'',
      ''2. Identify ALL rules, guidelines, constraints, instructions, or requirements'',
      ''3. Track which pages contain each rule'',
      ''4. If a rule spans multiple pages, note the page range'',
      ''5. Preserve the complete context of each rule'',
      '''',
      ''Output format:'',
      '''',
      ''DOCUMENT SUMMARY:'',
      ''<2-4 sentence overview of the document>'',
      '''',
      ''EXTRACTED RULES:'',
      ''[Page X] Rule 1: <complete rule description>'',
      ''[Page Y-Z] Rule 2: <rule spanning pages Y to Z>'',
      ''[Page Z] Rule 3: <another rule>'',
      '''',
      ''CROSS-PAGE OBSERVATIONS:'',
      ''<Note any rules or content that continues across multiple pages>'',
      '''',
      ''NOTES:'',
      ''<Additional context or observations>'']"

definition single_pass_request :: "string \<Rightarrow> request" where
  "single_pass_request markdown_content =
     Request ''gpt-4o''
       [(''system'', single_pass_system_prompt),
        (''user'', ''Analyze this document and extract all rules:\<newline>\<newline>'' @ markdown_content)]
       4000"

definition extract_rules_from_markdown_single_pass ::
  "service \<Rightarrow> request list \<Rightarrow> string \<Rightarrow> request list \<times> (error + string)" where
  "extract_rules_from_markdown_single_pass client log markdown_content =
     create client log (single_pass_request markdown_content)"

section \<open>Module 2: sliding window\<close>

definition window_system_prompt :: string where
  "window_system_prompt = join ''\<newline>''
     [''You are analyzing a section of a larger document.'',
      '''',
      ''Extract:'',
      ''1. All rules, guidelines, and constraints in these pages'',
      ''2. Note if any rule appears incomplete (continues from previous or to next pages)'',
      ''3. Include page numbers for each rule'',
      '''',
      ''Format:'',
      ''[Page X] Rule: <rule text>'',
      '''',
      ''If incomplete:'',
      ''[Page X] INCOMPLETE: <description of what continues>'']"

text \<open>
  \<^verbatim>\<open>
  start_page = max(1, i - 1)
  end_page = min(total_pages, i + 1)
  window_pages = range(start_page, end_page + 1)
  \<close>
\<close>

definition start_page :: "int \<Rightarrow> int" where
  "start_page i = max 1 (i - 1)"

definition end_page :: "int \<Rightarrow> int \<Rightarrow> int" where
  "end_page total_pages i = min total_pages (i + 1)"

definition window_pages :: "int \<Rightarrow> int \<Rightarrow> int list" where
  "window_pages total_pages i = [start_page i .. end_page total_pages i]"

text \<open>
  \<^verbatim>\<open>
  window_content = []
  for page_num in window_pages:
      window_content.append(f"## Page {page_num}\n\n{pages[page_num]}\n")
  \<close>
  \<open>pages[page_num]\<close> raises \<open>KeyError\<close> at the first page number that is not a key.
\<close>

fun window_content :: "pages \<Rightarrow> int list \<Rightarrow> error + string list" where
  "window_content pages [] = Inr []"
| "window_content pages (page_num # rest) =
     (case map_of pages page_num of
        None \<Rightarrow> Inl (KeyError page_num)
      | Some text \<Rightarrow>
          (case window_content pages rest of
             Inl e \<Rightarrow> Inl e
           | Inr wc \<Rightarrow> Inr ((''## Page '' @ str page_num @ ''\<newline>\<newline>'' @ text @ ''\<newline>'') # wc)))"

definition window_request :: "int \<Rightarrow> int \<Rightarrow> string \<Rightarrow> request" where
  "window_request total_pages i combined_content =
     Request ''gpt-4o''
       [(''system'', window_system_prompt),
        (''user'', ''Analyzing pages '' @ str (start_page i) @ ''-'' @ str (end_page total_pages i)
                   @ '', focusing on page '' @ str i @ '':\<newline>\<newline>'' @ combined_content)]
       1500"

text \<open>The request of window \<open>i\<close>, or the \<open>KeyError\<close> of building it.\<close>

definition window_call :: "pages \<Rightarrow> int \<Rightarrow> int \<Rightarrow> error + request" where
  "window_call pages total_pages i =
     (case window_content pages (window_pages total_pages i) of
        Inl e \<Rightarrow> Inl e
      | Inr wc \<Rightarrow> Inr (window_request total_pages i (join ''\<newline>'' wc)))"

text \<open>
  The loop \<^verbatim>\<open>for i in range(1, total_pages + 1)\<close>, on the focus pages still to do, with
  the log of calls and \<open>all_extractions\<close> so far. Nothing catches an exception here.
\<close>

fun windows_loop ::
  "service \<Rightarrow> pages \<Rightarrow> int \<Rightarrow> int list \<Rightarrow> request list \<Rightarrow> string list
     \<Rightarrow> request list \<times> (error + string list)" where
  "windows_loop client pages total_pages [] log all_extractions = (log, Inr all_extractions)"
| "windows_loop client pages total_pages (i # todo) log all_extractions =
     (case window_call pages total_pages i of
        Inl e \<Rightarrow> (log, Inl e)
      | Inr req \<Rightarrow>
          (case create client log req of
             (log', Inl e) \<Rightarrow> (log', Inl e)
           | (log', Inr content) \<Rightarrow>
               windows_loop client pages total_pages todo log' (all_extractions @ [content])))"

declare windows_loop.simps(2) [simp del]

text \<open>
  \<^verbatim>\<open>chr(10).join(f"=== WINDOW {i+1} ===\n{ext}\n" for i, ext in enumerate(all_extractions))\<close>
\<close>

definition window_report :: "nat \<times> string \<Rightarrow> string" where
  "window_report p =
     ''=== WINDOW '' @ str (int (fst p) + 1) @ '' ===\<newline>'' @ snd p @ ''\<newline>''"

definition labelled_reports :: "string list \<Rightarrow> string" where
  "labelled_reports all_extractions =
     join ''\<newline>'' (map window_report (List.enumerate 0 all_extractions))"

definition consolidation_prompt :: "int \<Rightarrow> string list \<Rightarrow> string" where
  "consolidation_prompt total_pages all_extractions = join ''\<newline>''
     ['''',
      ''You have received rule extractions from a '' @ str total_pages
        @ ''-page document, processed in overlapping windows.'',
      '''',
      ''Your task:'',
      ''1. Merge duplicate rules (same rule extracted multiple times)'',
      ''2. Combine incomplete rules split across windows'',
      ''3. Remove redundancy while keeping all unique rules'',
      ''4. Create a final clean list with page references'',
      '''',
      ''Extractions:'',
      '''',
      labelled_reports all_extractions,
      '''',
      ''Provide consolidated output:'',
      '''',
      ''DOCUMENT SUMMARY:'',
      ''<brief summary>'',
      '''',
      ''CONSOLIDATED RULES:'',
      ''[Page X] Rule 1: <complete rule>'',
      ''[Page Y-Z] Rule 2: <rule spanning pages>'',
      '''',
      ''NOTES:'',
      ''<Observations about cross-page rules>'',
      '''']"

definition consolidation_request :: "int \<Rightarrow> string list \<Rightarrow> request" where
  "consolidation_request total_pages all_extractions =
     Request ''gpt-4o'' [(''user'', consolidation_prompt total_pages all_extractions)] 4000"

text \<open>The parameter \<open>window_size\<close> of the source is never read and is left out.\<close>

definition extract_rules_from_markdown_sliding_window ::
  "service \<Rightarrow> request list \<Rightarrow> string \<Rightarrow> request list \<times> (error + string)" where
  "extract_rules_from_markdown_sliding_window client log markdown_content =
     (let pages = parse_markdown_by_pages markdown_content;
          total_pages = int (length pages)
      in if total_pages \<le> 3 then extract_rules_from_markdown_single_pass client log markdown_content
         else (case windows_loop client pages total_pages [1..total_pages] log [] of
                 (log', Inl e) \<Rightarrow> (log', Inl e)
               | (log', Inr all_extractions) \<Rightarrow>
                   create client log' (consolidation_request total_pages all_extractions)))"

text \<open>
  \<open>extract_rules_from_markdown\<close> from the loaded text to \<open>result\<close>: the calls made and
  the report or the exception. \<open>use_sliding_window\<close> is \<open>None\<close>, \<open>True\<close> or \<open>False\<close>.
  Reading the input file and writing the report file are outside the model.
\<close>

definition extract_rules_from_markdown ::
  "service \<Rightarrow> string \<Rightarrow> bool option \<Rightarrow> request list \<times> (error + string)" where
  "extract_rules_from_markdown client markdown_content use_sliding_window =
     (let pages = parse_markdown_by_pages markdown_content;
          total_pages = int (length pages);
          use_sliding_window =
            (case use_sliding_window of None \<Rightarrow> total_pages > 10 | Some b \<Rightarrow> b)
      in if use_sliding_window
         then extract_rules_from_markdown_sliding_window client [] markdown_content
         else extract_rules_from_markdown_single_pass client [] markdown_content)"

section \<open>Module 1: page extraction and assembly\<close>

text \<open>
  The extraction service answers one request per page; \<open>client page_num img_b64\<close> is the
  outcome of the request made for page \<open>page_num\<close>. \<open>extract_page\<close> catches every
  exception and returns the marker in place of the content.
\<close>

type_synonym vision = "int \<Rightarrow> string \<Rightarrow> outcome"

definition extract_page :: "vision \<Rightarrow> string \<Rightarrow> int \<Rightarrow> int \<times> string" where
  "extract_page client img_b64 page_num =
     (case client page_num img_b64 of
        Returned content \<Rightarrow> (page_num, content)
      | Raised e \<Rightarrow> (page_num, ''[Error: '' @ e @ '']''))"

text \<open>
  \<^verbatim>\<open>
  with ThreadPoolExecutor(max_workers=max_workers) as executor:
      futures = [executor.submit(extract_page, img, i) for i, img in enumerate(images, 1)]
      results = dict(f.result() for f in futures)
  \<close>
  The pool refuses \<open>max_workers \<le> 0\<close> with \<open>ValueError\<close>. The submitted tasks finish in
  some order, given as the list \<open>order\<close> of future indices; a finished task stores its
  result in its future, once. \<open>f.result()\<close> is read future by future in submission
  order and waits for its task: where a task never finishes, the call does not return
  (\<open>None\<close>).
\<close>

definition complete ::
  "vision \<Rightarrow> (string \<times> int) list \<Rightarrow> nat \<Rightarrow> (nat \<rightharpoonup> int \<times> string) \<Rightarrow> (nat \<rightharpoonup> int \<times> string)" where
  "complete client futures k finished =
     (if k < length futures \<and> finished k = None
      then finished(k \<mapsto> extract_page client (fst (futures ! k)) (snd (futures ! k)))
      else finished)"

fun results_of :: "(nat \<rightharpoonup> int \<times> string) \<Rightarrow> nat list \<Rightarrow> (int \<times> string) list option" where
  "results_of finished [] = Some []"
| "results_of finished (k # ks) =
     (case finished k of
        None \<Rightarrow> None
      | Some r \<Rightarrow> map_option ((#) r) (results_of finished ks))"

definition extract_parallel ::
  "vision \<Rightarrow> string list \<Rightarrow> int \<Rightarrow> nat list \<Rightarrow> (error + pages) option" where
  "extract_parallel client images max_workers order =
     (if max_workers \<le> 0 then Some (Inl ValueError)
      else
        (let futures = map (\<lambda>(i, img). (img, int i)) (List.enumerate 1 images);
             finished = fold (complete client futures) order Map.empty
         in map_option (\<lambda>results. Inr (dict results))
              (results_of finished [0..<length futures])))"

text \<open>
  \<^verbatim>\<open>
  for i in range(1, total + 1):
      md.extend([f"## Page {i}\n\n", pages.get(i, "[Missing]"), "\n\n---\n\n"])
  \<close>
\<close>

definition page_section :: "pages \<Rightarrow> int \<Rightarrow> string list" where
  "page_section pages i =
     [''## Page '' @ str i @ ''\<newline>\<newline>'', get pages i ''[Missing]'', ''\<newline>\<newline>---\<newline>\<newline>'']"

definition md_pages :: "int \<Rightarrow> pages \<Rightarrow> string list" where
  "md_pages total' pages = concat (map (page_section pages) [1..total'])"

text \<open>
  \<open>pdf_to_markdown\<close> from the rendered images to the text written to the output file:
  \<open>name\<close> is \<open>Path(pdf_path).name\<close>, \<open>date\<close> the formatted time and \<open>total'\<close> (\<open>total\<close>) the page
  count that \<open>pdfinfo\<close> reports.
\<close>

definition pdf_to_markdown ::
  "vision \<Rightarrow> string \<Rightarrow> string \<Rightarrow> int \<Rightarrow> string list \<Rightarrow> int \<Rightarrow> nat list \<Rightarrow> (error + string) option" where
  "pdf_to_markdown client name date total' images workers order =
     (case extract_parallel client images workers order of
        None \<Rightarrow> None
      | Some (Inl e) \<Rightarrow> Some (Inl e)
      | Some (Inr pages) \<Rightarrow>
          Some (Inr (concat
            ([''# '' @ name @ ''\<newline>'',
              ''**Pages:** '' @ str total' @ '' | **Date:** '' @ date @ ''\<newline>\<newline>---\<newline>\<newline>'']
             @ md_pages total' pages))))"

section \<open>Notions used to state the properties\<close>

text \<open>
  A page content is free of the separator when, in the content followed by the separator,
  the separator occurs nowhere before the content's end.
\<close>

definition separator_free :: "string \<Rightarrow> bool" where
  "separator_free c \<longleftrightarrow> list_all (\<lambda>k. \<not> prefix separator (drop k (c @ separator))) [0..<length c]"

text \<open>The dictionary entry that one match of the pattern stores.\<close>

definition page_entry :: "string \<times> string \<Rightarrow> int \<times> string" where
  "page_entry m = (int_of_digits (fst m), strip (snd m))"

text \<open>The separator occurs somewhere in the text.\<close>

definition has_separator :: "string \<Rightarrow> bool" where
  "has_separator t \<longleftrightarrow> list_ex (\<lambda>k. prefix separator (drop k t)) [0..<length t]"

text \<open>The three ways a run can end, with the outcomes of the calls it made.\<close>

definition run_shape :: "service \<Rightarrow> request list \<Rightarrow> request list \<Rightarrow> error + string \<Rightarrow> bool" where
  "run_shape client log log' res \<longleftrightarrow>
     (\<exists>rs report. res = Inr report
        \<and> outcomes client log' = outcomes client log @ map Returned rs @ [Returned report])
     \<or> (\<exists>rs e. res = Inl (ServiceError e)
        \<and> outcomes client log' = outcomes client log @ map Returned rs @ [Raised e])
     \<or> (\<exists>rs k. res = Inl (KeyError k)
        \<and> outcomes client log' = outcomes client log @ map Returned rs)"

text \<open>The result that the task of future \<open>k\<close> stores: page \<open>k + 1\<close> with its text or marker.\<close>

definition page_result :: "vision \<Rightarrow> string list \<Rightarrow> nat \<Rightarrow> int \<times> string" where
  "page_result client images k = extract_page client (images ! k) (int k + 1)"

text \<open>The pattern matches at no position inside \<open>pre\<close>, in the text \<open>pre\<close> followed by \<open>t\<close>.\<close>

definition unmatched_prefix :: "string \<Rightarrow> string \<Rightarrow> bool" where
  "unmatched_prefix pre t \<longleftrightarrow> list_all (\<lambda>k. match_page (drop k (pre @ t)) = None) [0..<length pre]"

section \<open>Facts about the page pattern\<close>

lemma literal_Some_iff: "literal p s = Some r \<longleftrightarrow> s = p @ r"
  by (induction p s rule: literal.induct) auto

lemma prefix_append_long: "length p \<le> length a \<Longrightarrow> prefix p (a @ r) = prefix p a"
  by (auto simp: prefix_append)

lemma lazy_content_split: "lazy_content s = (b, r) \<Longrightarrow> s = b @ r"
  by (induction s arbitrary: b r) (auto split: if_splits prod.splits)

lemma lazy_content_rest: "lazy_content s = (b, r) \<Longrightarrow> r = [] \<or> prefix separator r"
  by (induction s arbitrary: b r) (auto split: if_splits prod.splits)

lemma lazy_content_shortest:
  "lazy_content s = (b, r) \<Longrightarrow> k < length b \<Longrightarrow> \<not> prefix separator (drop k s)"
proof (induction s arbitrary: b r k)
  case Nil
  then show ?case by simp
next
  case (Cons c cs)
  show ?case
  proof (cases "prefix separator (c # cs)")
    case True
    with Cons.prems show ?thesis by simp
  next
    case False
    then obtain b' where b': "lazy_content cs = (b', r)" "b = c # b'"
      using Cons.prems(1) by (auto split: prod.splits)
    show ?thesis
    proof (cases k)
      case 0
      with False show ?thesis by simp
    next
      case (Suc j)
      with Cons.prems(2) b' have "j < length b'" by simp
      from Cons.IH[OF b'(1) this] Suc show ?thesis by simp
    qed
  qed
qed

lemma lazy_content_stop: "prefix separator s \<Longrightarrow> lazy_content s = ([], s)"
  by (cases s) (auto simp: separator_def)

lemma lazy_content_run:
  "(\<And>k. k < length c \<Longrightarrow> \<not> prefix separator (drop k (c @ t))) \<Longrightarrow> t = [] \<or> prefix separator t
   \<Longrightarrow> lazy_content (c @ t) = (c, t)"
proof (induction c)
  case Nil
  then show ?case by (auto simp: lazy_content_stop)
next
  case (Cons x c)
  have "\<not> prefix separator (drop 0 ((x # c) @ t))"
    by (rule Cons.prems(1)) simp
  moreover have "lazy_content (c @ t) = (c, t)"
  proof (rule Cons.IH)
    fix k assume "k < length c"
    then have "Suc k < length (x # c)" by simp
    from Cons.prems(1)[OF this] show "\<not> prefix separator (drop k (c @ t))" by simp
  qed (rule Cons.prems(2))
  ultimately show ?case by simp
qed

lemma not_digit_newline: "\<not> is_digit CHR 0x0A"
  by (simp add: is_digit_def)

lemma match_page_header:
  assumes "ds \<noteq> []" "\<forall>c\<in>set ds. is_digit c"
  shows "match_page (''## Page '' @ ds @ ''\<newline>\<newline>'' @ t) = Some (ds, fst (lazy_content t), snd (lazy_content t))"
proof -
  have l: "literal ''## Page '' (''## Page '' @ ds @ ''\<newline>\<newline>'' @ t) = Some (ds @ ''\<newline>\<newline>'' @ t)"
    unfolding literal_Some_iff by simp
  have tw: "takeWhile is_digit (ds @ ''\<newline>\<newline>'' @ t) = ds"
    using assms(2) by (simp add: takeWhile_append2 not_digit_newline)
  have dw: "dropWhile is_digit (ds @ ''\<newline>\<newline>'' @ t) = ''\<newline>\<newline>'' @ t"
    using assms(2) by (simp add: dropWhile_append2 not_digit_newline)
  have l2: "literal ''\<newline>\<newline>'' (''\<newline>\<newline>'' @ t) = Some t"
    unfolding literal_Some_iff by simp
  show ?thesis
    unfolding match_page_def l option.case Let_def tw dw l2 using assms(1)
    by (simp add: case_prod_beta)
qed

lemma match_page_SomeD:
  assumes "match_page s = Some (ds, body, rest)"
  shows "s = ''## Page '' @ ds @ ''\<newline>\<newline>'' @ body @ rest"
    and "ds \<noteq> []" and "\<forall>c\<in>set ds. is_digit c"
    and "lazy_content (body @ rest) = (body, rest)"
proof -
  from assms obtain s1 s3 where
    a: "literal ''## Page '' s = Some s1" and
    d: "ds = takeWhile is_digit s1" "ds \<noteq> []" and
    b: "literal ''\<newline>\<newline>'' (dropWhile is_digit s1) = Some s3" and
    c: "lazy_content s3 = (body, rest)"
    by (auto simp: match_page_def Let_def split: option.splits if_splits prod.splits)
  from a have "s = ''## Page '' @ s1" by (simp only: literal_Some_iff)
  moreover have "s1 = ds @ dropWhile is_digit s1" by (simp add: d)
  moreover from b have "dropWhile is_digit s1 = ''\<newline>\<newline>'' @ s3" by (simp only: literal_Some_iff)
  moreover from c have s3: "s3 = body @ rest" by (rule lazy_content_split)
  ultimately show "s = ''## Page '' @ ds @ ''\<newline>\<newline>'' @ body @ rest" by metis
  show "ds \<noteq> []" by fact
  show "\<forall>c\<in>set ds. is_digit c" unfolding d by (auto dest: set_takeWhileD)
  show "lazy_content (body @ rest) = (body, rest)" using c s3 by simp
qed

lemma match_page_not_hash: "c \<noteq> CHR ''#'' \<Longrightarrow> match_page (c # s) = None"
  by (simp add: match_page_def)

lemma findall_Nil: "findall [] = []"
  by (simp add: findall.simps match_page_def)

lemma findall_skip: "c \<noteq> CHR ''#'' \<Longrightarrow> findall (c # s) = findall s"
  by (subst findall.simps) (simp add: match_page_not_hash)

lemma findall_separator: "findall (separator @ r) = findall r"
  by (simp add: separator_def findall_skip)

lemma findall_match: "match_page s = Some (ds, body, rest) \<Longrightarrow> findall s = (ds, body) # findall rest"
  by (subst findall.simps) simp

lemma digit_char_is_digit: "d < 10 \<Longrightarrow> is_digit (digit_char d)"
  by (auto simp: is_digit_def digit_char_def less_Suc_eq eval_nat_numeral)

lemma digit_val_digit_char: "d < 10 \<Longrightarrow> digit_val (digit_char d) = int d"
  by (auto simp: digit_val_def digit_char_def less_Suc_eq eval_nat_numeral)

lemma digits_not_Nil: "digits n \<noteq> []"
  by (subst digits.simps) simp

lemma digits_are_digits: "\<forall>c\<in>set (digits n). is_digit c"
proof (induction n rule: digits.induct)
  case (1 n)
  show ?case
    by (subst digits.simps) (use 1 in \<open>auto simp: digit_char_is_digit\<close>)
qed

lemma int_of_digits_snoc: "int_of_digits (ds @ [c]) = 10 * int_of_digits ds + digit_val c"
  by (simp add: int_of_digits_def)

lemma int_of_digits_digits: "int_of_digits (digits n) = int n"
proof (induction n rule: digits.induct)
  case (1 n)
  show ?case
  proof (cases "n < 10")
    case True
    then show ?thesis
      by (subst digits.simps) (simp add: int_of_digits_def digit_val_digit_char)
  next
    case False
    with 1 have "int_of_digits (digits (n div 10)) = int (n div 10)" by simp
    moreover have "10 * int (n div 10) + int (n mod 10) = int n"
      by (simp add: zdiv_int zmod_int)
    ultimately show ?thesis using False
      by (subst digits.simps) (simp add: int_of_digits_snoc digit_val_digit_char)
  qed
qed

section \<open>Facts about the parsed dictionary\<close>

lemma update_fresh: "k \<notin> fst ` set al \<Longrightarrow> AList.update k v al = al @ [(k, v)]"
  by (induction al) auto

lemma fold_store_page_fresh:
  "distinct (map fst acc @ map (\<lambda>m. fst (page_entry m)) ms)
   \<Longrightarrow> fold store_page ms acc = acc @ map page_entry ms"
proof (induction ms arbitrary: acc)
  case Nil
  then show ?case by simp
next
  case (Cons m ms)
  have fresh: "fst (page_entry m) \<notin> fst ` set acc"
    using Cons.prems by auto
  have step: "store_page m acc = acc @ [page_entry m]"
    using update_fresh[OF fresh] by (simp add: store_page_def page_entry_def)
  have "distinct (map fst (acc @ [page_entry m]) @ map (\<lambda>m. fst (page_entry m)) ms)"
    using Cons.prems by auto
  from Cons.IH[OF this] show ?case by (simp add: step)
qed

lemma map_of_store_page:
  "map_of (store_page m acc) n = (if fst (page_entry m) = n then Some (snd (page_entry m)) else map_of acc n)"
  by (simp add: store_page_def page_entry_def AList.update_conv')

lemma map_of_fold_store_page_last:
  assumes "j < length ms" "fst (page_entry (ms ! j)) = n"
    and "\<forall>j'. j < j' \<and> j' < length ms \<longrightarrow> fst (page_entry (ms ! j')) \<noteq> n"
  shows "map_of (fold store_page ms acc) n = Some (snd (page_entry (ms ! j)))"
  using assms
proof (induction ms rule: rev_induct)
  case Nil
  then show ?case by simp
next
  case (snoc x xs)
  show ?case
  proof (cases "j = length xs")
    case True
    with snoc.prems(2) show ?thesis by (simp add: map_of_store_page)
  next
    case False
    with snoc.prems(1) have j: "j < length xs" by simp
    from snoc.prems(3)
    have "j < length xs \<and> length xs < length (xs @ [x]) \<longrightarrow> fst (page_entry ((xs @ [x]) ! length xs)) \<noteq> n"
      by blast
    with j have x: "fst (page_entry x) \<noteq> n" by simp
    have "map_of (fold store_page xs acc) n = Some (snd (page_entry (xs ! j)))"
    proof (rule snoc.IH[OF j])
      show "fst (page_entry (xs ! j)) = n"
        using snoc.prems(2) j by (simp add: nth_append)
      show "\<forall>j'. j < j' \<and> j' < length xs \<longrightarrow> fst (page_entry (xs ! j')) \<noteq> n"
      proof (intro allI impI)
        fix j' assume a: "j < j' \<and> j' < length xs"
        then have "j < j' \<and> j' < length (xs @ [x])" by simp
        with snoc.prems(3) have "fst (page_entry ((xs @ [x]) ! j')) \<noteq> n" by blast
        with a show "fst (page_entry (xs ! j')) \<noteq> n" by (simp add: nth_append)
      qed
    qed
    with x j show ?thesis by (simp add: map_of_store_page nth_append)
  qed
qed

section \<open>Facts about written and parsed pages\<close>

lemma str_nonneg: "0 \<le> i \<Longrightarrow> str i = digits (nat i)"
  by (simp add: str_def)

lemma int_of_digits_str: "0 \<le> i \<Longrightarrow> int_of_digits (str i) = i"
  by (simp add: str_nonneg int_of_digits_digits)

lemma separator_freeD:
  assumes "separator_free c" "k < length c"
  shows "\<not> prefix separator (drop k (c @ separator @ r))"
proof -
  from assms have "\<not> prefix separator (drop k (c @ separator))"
    by (simp add: separator_free_def list_all_iff)
  moreover have "length separator \<le> length (drop k (c @ separator))"
    using assms(2) by simp
  moreover have "drop k (c @ separator @ r) = drop k (c @ separator) @ r"
    using assms(2) by simp
  ultimately show ?thesis using prefix_append_long[of separator "drop k (c @ separator)" r] by metis
qed

lemma lazy_content_section:
  assumes "separator_free c"
  shows "lazy_content (c @ separator @ r) = (c, separator @ r)"
proof (rule lazy_content_run)
  fix k assume "k < length c"
  with assms show "\<not> prefix separator (drop k (c @ separator @ r))"
    by (rule separator_freeD)
next
  show "separator @ r = [] \<or> prefix separator (separator @ r)" by simp
qed

lemma findall_section:
  assumes "0 \<le> i" "separator_free c"
  shows "findall (''## Page '' @ str i @ ''\<newline>\<newline>'' @ c @ separator @ r) = (str i, c) # findall r"
proof -
  have d: "str i \<noteq> []" "\<forall>x\<in>set (str i). is_digit x"
    using assms(1) by (simp_all add: str_nonneg digits_not_Nil digits_are_digits)
  have "match_page (''## Page '' @ str i @ ''\<newline>\<newline>'' @ c @ separator @ r)
        = Some (str i, c, separator @ r)"
    using match_page_header[OF d, of "c @ separator @ r"] lazy_content_section[OF assms(2), of r]
    by simp
  then show ?thesis
    by (simp only: findall_match findall_separator)
qed

lemma concat_page_section:
  "concat (page_section pages i) = ''## Page '' @ str i @ ''\<newline>\<newline>'' @ get pages i ''[Missing]'' @ separator"
  by (simp add: page_section_def separator_def)

lemma findall_sections:
  assumes "\<forall>i\<in>set js. 0 \<le> i \<and> separator_free (get pages i ''[Missing]'')"
  shows "findall (concat (map (\<lambda>i. concat (page_section pages i)) js))
         = map (\<lambda>i. (str i, get pages i ''[Missing]'')) js"
  using assms
proof (induction js)
  case Nil
  show ?case by (simp add: findall_Nil)
next
  case (Cons i js)
  then have i: "0 \<le> i" "separator_free (get pages i ''[Missing]'')" by simp_all
  have "findall (concat (page_section pages i) @ concat (map (\<lambda>i. concat (page_section pages i)) js))
        = (str i, get pages i ''[Missing]'') # findall (concat (map (\<lambda>i. concat (page_section pages i)) js))"
    unfolding concat_page_section using findall_section[OF i] by simp
  with Cons show ?case by simp
qed

lemma concat_concat_map: "concat (concat (map f xs)) = concat (map (\<lambda>i. concat (f i)) xs)"
  by (induction xs) simp_all

lemma concat_md_pages:
  "concat (md_pages total' pages) = concat (map (\<lambda>i. concat (page_section pages i)) [1..total'])"
  unfolding md_pages_def by (rule concat_concat_map)

lemma parse_sections:
  assumes "\<forall>i\<in>{1..P}. separator_free (get pages i ''[Missing]'')"
  shows "parse_markdown_by_pages (concat (md_pages P pages))
         = map (\<lambda>i. (i, strip (get pages i ''[Missing]''))) [1..P]"
proof -
  let ?ms = "map (\<lambda>i. (str i, get pages i ''[Missing]'')) [1..P]"
  have f: "findall (concat (md_pages P pages)) = ?ms"
    unfolding concat_md_pages using assms by (intro findall_sections) auto
  have e: "map page_entry ?ms = map (\<lambda>i. (i, strip (get pages i ''[Missing]''))) [1..P]"
    by (simp add: page_entry_def int_of_digits_str)
  have "map (\<lambda>i. int_of_digits (str i)) [1..P] = [1..P]"
    by (rule map_idI) (simp add: int_of_digits_str)
  then have k: "map (\<lambda>m. fst (page_entry m)) ?ms = [1..P]"
    by (simp add: page_entry_def comp_def)
  have "distinct (map fst ([]::pages) @ map (\<lambda>m. fst (page_entry m)) ?ms)"
    unfolding k by simp
  from fold_store_page_fresh[OF this] show ?thesis
    by (simp only: parse_markdown_by_pages_def f e append_Nil)
qed

lemma lazy_content_all:
  assumes "\<not> has_separator t"
  shows "lazy_content t = (t, [])"
proof -
  have "lazy_content (t @ []) = (t, [])"
  proof (rule lazy_content_run)
    fix k assume "k < length t"
    with assms show "\<not> prefix separator (drop k (t @ []))"
      by (auto simp: has_separator_def list_ex_iff)
  qed simp
  then show ?thesis by simp
qed

section \<open>Facts about the analysis calls\<close>

lemma outcomes_snoc: "outcomes client (log @ [req]) = outcomes client log @ [client log req]"
  by (simp add: outcomes_def nth_append)

lemma outcomes_Nil: "outcomes client [] = []"
  by (simp add: outcomes_def)

lemma create_Returned: "client log req = Returned c \<Longrightarrow> create client log req = (log @ [req], Inr c)"
  by (simp add: create_def)

lemma create_Raised:
  "client log req = Raised e \<Longrightarrow> create client log req = (log @ [req], Inl (ServiceError e))"
  by (simp add: create_def)

lemma windows_loop_step_ok:
  "window_call pages total_pages i = Inr req \<Longrightarrow> client log req = Returned c
   \<Longrightarrow> windows_loop client pages total_pages (i # todo) log exts
       = windows_loop client pages total_pages todo (log @ [req]) (exts @ [c])"
  by (simp add: create_Returned windows_loop.simps(2))

lemma windows_loop_step_raise:
  "window_call pages total_pages i = Inr req \<Longrightarrow> client log req = Raised e
   \<Longrightarrow> windows_loop client pages total_pages (i # todo) log exts = (log @ [req], Inl (ServiceError e))"
  by (simp add: create_Raised windows_loop.simps(2))

lemma windows_loop_step_key:
  "window_call pages total_pages i = Inl e
   \<Longrightarrow> windows_loop client pages total_pages (i # todo) log exts = (log, Inl e)"
  by (simp add: windows_loop.simps(2))

lemma window_content_Inl:
  "window_content pages ks = Inl e \<Longrightarrow> \<exists>k\<in>set ks. e = KeyError k \<and> map_of pages k = None"
  by (induction ks arbitrary: e) (auto split: option.splits sum.splits)

lemma window_content_Inr:
  "\<forall>k\<in>set ks. map_of pages k \<noteq> None \<Longrightarrow> \<exists>wc. window_content pages ks = Inr wc"
  by (induction ks) (auto split: option.splits sum.splits)

lemma window_call_Inl:
  "window_call pages total_pages i = Inl e
   \<Longrightarrow> \<exists>k\<in>set (window_pages total_pages i). e = KeyError k \<and> map_of pages k = None"
  by (auto simp: window_call_def split: sum.splits dest: window_content_Inl)

lemma window_call_Inr:
  "window_call pages total_pages i = Inr req \<Longrightarrow> \<exists>combined. req = window_request total_pages i combined"
  by (auto simp: window_call_def split: sum.splits)

lemma window_call_ok:
  "\<forall>k\<in>set (window_pages total_pages i). map_of pages k \<noteq> None
   \<Longrightarrow> \<exists>req. window_call pages total_pages i = Inr req"
  using window_content_Inr[of "window_pages total_pages i" pages]
  by (auto simp: window_call_def)

lemma windows_loop_Inr:
  "windows_loop client pages total_pages todo log exts = (log', Inr exts')
   \<Longrightarrow> \<exists>reqs rs. log' = log @ reqs \<and> exts' = exts @ rs
         \<and> length reqs = length todo \<and> length rs = length todo
         \<and> map (window_call pages total_pages) todo = map Inr reqs
         \<and> outcomes client log' = outcomes client log @ map Returned rs"
proof (induction todo arbitrary: log exts)
  case Nil
  then show ?case by simp
next
  case (Cons i todo)
  show ?case
  proof (cases "window_call pages total_pages i")
    case (Inl e)
    with Cons.prems show ?thesis by (simp add: windows_loop_step_key)
  next
    case (Inr req)
    show ?thesis
    proof (cases "client log req")
      case (Raised e)
      with Inr Cons.prems show ?thesis by (simp add: windows_loop_step_raise)
    next
      case (Returned c)
      with Inr Cons.prems
      have "windows_loop client pages total_pages todo (log @ [req]) (exts @ [c]) = (log', Inr exts')"
        by (simp add: windows_loop_step_ok)
      from Cons.IH[OF this] obtain reqs rs where
        r: "log' = (log @ [req]) @ reqs" "exts' = (exts @ [c]) @ rs"
           "length reqs = length todo" "length rs = length todo"
           "map (window_call pages total_pages) todo = map Inr reqs"
           "outcomes client log' = outcomes client (log @ [req]) @ map Returned rs"
        by blast
      show ?thesis
      proof (intro exI conjI)
        show "log' = log @ (req # reqs)" using r(1) by simp
        show "exts' = exts @ (c # rs)" using r(2) by simp
        show "length (req # reqs) = length (i # todo)" using r(3) by simp
        show "length (c # rs) = length (i # todo)" using r(4) by simp
        show "map (window_call pages total_pages) (i # todo) = map Inr (req # reqs)"
          using r(5) Inr by simp
        show "outcomes client log' = outcomes client log @ map Returned (c # rs)"
          using r(6) Returned by (simp add: outcomes_snoc)
      qed
    qed
  qed
qed

lemma windows_loop_ServiceError:
  "windows_loop client pages total_pages todo log exts = (log', Inl (ServiceError e))
   \<Longrightarrow> \<exists>rs. outcomes client log' = outcomes client log @ map Returned rs @ [Raised e]"
proof (induction todo arbitrary: log exts)
  case Nil
  then show ?case by simp
next
  case (Cons i todo)
  show ?case
  proof (cases "window_call pages total_pages i")
    case (Inl e')
    with Cons.prems have "e' = ServiceError e" by (simp add: windows_loop_step_key)
    with Inl window_call_Inl[of pages total_pages i e'] show ?thesis by auto
  next
    case (Inr req)
    show ?thesis
    proof (cases "client log req")
      case (Raised e')
      with Inr Cons.prems have "log' = log @ [req]" "e' = e"
        by (simp_all add: windows_loop_step_raise)
      with Raised have "outcomes client log' = outcomes client log @ map Returned [] @ [Raised e]"
        by (simp add: outcomes_snoc)
      then show ?thesis by blast
    next
      case (Returned c)
      with Inr Cons.prems
      have "windows_loop client pages total_pages todo (log @ [req]) (exts @ [c])
            = (log', Inl (ServiceError e))"
        by (simp add: windows_loop_step_ok)
      from Cons.IH[OF this] obtain rs where
        "outcomes client log' = outcomes client (log @ [req]) @ map Returned rs @ [Raised e]"
        by blast
      with Returned
      have "outcomes client log' = outcomes client log @ map Returned (c # rs) @ [Raised e]"
        by (simp add: outcomes_snoc)
      then show ?thesis by blast
    qed
  qed
qed

lemma windows_loop_KeyError:
  "windows_loop client pages total_pages todo log exts = (log', Inl (KeyError k))
   \<Longrightarrow> (\<exists>rs. outcomes client log' = outcomes client log @ map Returned rs)
       \<and> (\<exists>i\<in>set todo. window_call pages total_pages i = Inl (KeyError k))"
proof (induction todo arbitrary: log exts)
  case Nil
  then show ?case by simp
next
  case (Cons i todo)
  show ?case
  proof (cases "window_call pages total_pages i")
    case (Inl e')
    with Cons.prems have "e' = KeyError k" "log' = log" by (simp_all add: windows_loop_step_key)
    with Inl have "outcomes client log' = outcomes client log @ map Returned []"
      and "window_call pages total_pages i = Inl (KeyError k)" by simp_all
    then show ?thesis by (metis list.set_intros(1))
  next
    case (Inr req)
    show ?thesis
    proof (cases "client log req")
      case (Raised e')
      with Inr Cons.prems show ?thesis by (simp add: windows_loop_step_raise)
    next
      case (Returned c)
      with Inr Cons.prems
      have "windows_loop client pages total_pages todo (log @ [req]) (exts @ [c])
            = (log', Inl (KeyError k))"
        by (simp add: windows_loop_step_ok)
      from Cons.IH[OF this] obtain rs where
        o: "outcomes client log' = outcomes client (log @ [req]) @ map Returned rs"
        and w: "\<exists>i\<in>set todo. window_call pages total_pages i = Inl (KeyError k)"
        by blast
      from o Returned have "outcomes client log' = outcomes client log @ map Returned (c # rs)"
        by (simp add: outcomes_snoc)
      with w show ?thesis by (metis list.set_intros(2))
    qed
  qed
qed

lemma windows_loop_not_ValueError:
  "windows_loop client pages total_pages todo log exts \<noteq> (log', Inl ValueError)"
proof (induction todo arbitrary: log exts)
  case Nil
  then show ?case by simp
next
  case (Cons i todo)
  show ?case
  proof (cases "window_call pages total_pages i")
    case (Inl e')
    with window_call_Inl[of pages total_pages i e'] show ?thesis
      by (auto simp: windows_loop_step_key)
  next
    case (Inr req)
    then show ?thesis
      using Cons.IH by (cases "client log req") (simp_all add: windows_loop_step_ok windows_loop_step_raise)
  qed
qed

lemma windows_loop_requests:
  "windows_loop client pages total_pages todo log exts = (log', res)
   \<Longrightarrow> \<exists>reqs. log' = log @ reqs \<and> (\<forall>r\<in>set reqs. max_tokens r = 1500)"
proof (induction todo arbitrary: log exts)
  case Nil
  then show ?case by simp
next
  case (Cons i todo)
  show ?case
  proof (cases "window_call pages total_pages i")
    case (Inl e')
    with Cons.prems show ?thesis by (simp add: windows_loop_step_key)
  next
    case (Inr req)
    with window_call_Inr[OF Inr] have m: "max_tokens req = 1500"
      by (auto simp: window_request_def)
    show ?thesis
    proof (cases "client log req")
      case (Raised e')
      with Inr Cons.prems m show ?thesis by (auto simp: windows_loop_step_raise)
    next
      case (Returned c)
      with Inr Cons.prems
      have "windows_loop client pages total_pages todo (log @ [req]) (exts @ [c]) = (log', res)"
        by (simp add: windows_loop_step_ok)
      from Cons.IH[OF this] obtain reqs where
        "log' = (log @ [req]) @ reqs" "\<forall>r\<in>set reqs. max_tokens r = 1500" by blast
      with m have "log' = log @ (req # reqs) \<and> (\<forall>r\<in>set (req # reqs). max_tokens r = 1500)"
        by simp
      then show ?thesis by blast
    qed
  qed
qed

lemma windows_loop_succeeds:
  assumes "\<And>l r. \<exists>c. client l r = Returned c"
    and "\<forall>i\<in>set todo. \<exists>req. window_call pages total_pages i = Inr req"
  shows "\<exists>log' exts'. windows_loop client pages total_pages todo log exts = (log', Inr exts')"
  using assms(2)
proof (induction todo arbitrary: log exts)
  case Nil
  then show ?case by simp
next
  case (Cons i todo)
  then obtain req where r: "window_call pages total_pages i = Inr req" by auto
  from assms(1) obtain c where c: "client log req = Returned c" by blast
  from Cons show ?case
    by (simp add: windows_loop_step_ok[of pages total_pages i req client log c, OF r c])
qed

lemma windows_loop_hits_missing:
  assumes "\<And>l r. \<exists>c. client l r = Returned c"
    and "\<exists>i\<in>set todo. \<exists>e. window_call pages total_pages i = Inl e"
  shows "\<exists>k. snd (windows_loop client pages total_pages todo log exts) = Inl (KeyError k)"
  using assms(2)
proof (induction todo arbitrary: log exts)
  case Nil
  then show ?case by simp
next
  case (Cons i todo)
  show ?case
  proof (cases "window_call pages total_pages i")
    case (Inl e)
    with window_call_Inl[OF Inl] show ?thesis by (auto simp: windows_loop_step_key)
  next
    case (Inr req)
    from assms(1) obtain c where c: "client log req = Returned c" by blast
    from Inr Cons.prems have "\<exists>i\<in>set todo. \<exists>e. window_call pages total_pages i = Inl e" by auto
    from Cons.IH[OF this] show ?thesis
      by (simp add: windows_loop_step_ok[of pages total_pages i req client log c, OF Inr c])
  qed
qed

lemma sliding_window_small:
  "int (length (parse_markdown_by_pages content)) \<le> 3
   \<Longrightarrow> extract_rules_from_markdown_sliding_window client log content
       = create client log (single_pass_request content)"
  by (simp add: extract_rules_from_markdown_sliding_window_def
      extract_rules_from_markdown_single_pass_def Let_def)

lemma sliding_window_large:
  "3 < int (length (parse_markdown_by_pages content))
   \<Longrightarrow> extract_rules_from_markdown_sliding_window client log content
       = (case windows_loop client (parse_markdown_by_pages content)
                 (int (length (parse_markdown_by_pages content)))
                 [1..int (length (parse_markdown_by_pages content))] log [] of
            (log', Inl e) \<Rightarrow> (log', Inl e)
          | (log', Inr all_extractions) \<Rightarrow>
              create client log'
                (consolidation_request (int (length (parse_markdown_by_pages content))) all_extractions))"
  by (simp add: extract_rules_from_markdown_sliding_window_def Let_def)

lemma create_cases:
  assumes "create client log req = (log', res)"
  shows "log' = log @ [req]"
    and "(\<exists>c. res = Inr c \<and> client log req = Returned c)
         \<or> (\<exists>e. res = Inl (ServiceError e) \<and> client log req = Raised e)"
  using assms by (auto simp: create_def split: outcome.splits)

lemma create_shape:
  assumes "create client log req = (log', res)"
    and "outcomes client log = outcomes client log0 @ map Returned rs"
  shows "run_shape client log0 log' res"
proof -
  note c = create_cases[OF assms(1)]
  from c(2) show ?thesis
  proof
    assume "\<exists>c. res = Inr c \<and> client log req = Returned c"
    then obtain r where "res = Inr r" "client log req = Returned r" by blast
    with c(1) assms(2)
    have "res = Inr r \<and> outcomes client log' = outcomes client log0 @ map Returned rs @ [Returned r]"
      by (simp add: outcomes_snoc)
    then show ?thesis unfolding run_shape_def by blast
  next
    assume "\<exists>e. res = Inl (ServiceError e) \<and> client log req = Raised e"
    then obtain e where "res = Inl (ServiceError e)" "client log req = Raised e" by blast
    with c(1) assms(2)
    have "res = Inl (ServiceError e) \<and> outcomes client log' = outcomes client log0 @ map Returned rs @ [Raised e]"
      by (simp add: outcomes_snoc)
    then show ?thesis unfolding run_shape_def by blast
  qed
qed

lemma single_pass_shape:
  assumes "extract_rules_from_markdown_single_pass client log content = (log', res)"
  shows "run_shape client log log' res"
proof (rule create_shape)
  show "create client log (single_pass_request content) = (log', res)"
    using assms by (simp add: extract_rules_from_markdown_single_pass_def)
  show "outcomes client log = outcomes client log @ map Returned []" by simp
qed

lemma sliding_window_shape:
  assumes "extract_rules_from_markdown_sliding_window client log content = (log', res)"
  shows "run_shape client log log' res"
proof (cases "int (length (parse_markdown_by_pages content)) \<le> 3")
  case True
  with assms have "create client log (single_pass_request content) = (log', res)"
    by (simp add: sliding_window_small)
  then show ?thesis
    by (rule create_shape[where rs = "[]"]) simp
next
  case False
  let ?pages = "parse_markdown_by_pages content"
  let ?P = "int (length ?pages)"
  obtain log1 r1 where w: "windows_loop client ?pages ?P [1..?P] log [] = (log1, r1)"
    by (cases "windows_loop client ?pages ?P [1..?P] log []")
  from False assms w
  have s: "(case r1 of Inl e \<Rightarrow> (log1, Inl e)
            | Inr exts \<Rightarrow> create client log1 (consolidation_request ?P exts)) = (log', res)"
    by (simp add: sliding_window_large)
  show ?thesis
  proof (cases r1)
    case (Inr exts)
    with s have c: "create client log1 (consolidation_request ?P exts) = (log', res)" by simp
    from windows_loop_Inr[OF w[unfolded Inr]] obtain rs where
      "outcomes client log1 = outcomes client log @ map Returned rs" by blast
    with c show ?thesis by (rule create_shape)
  next
    case (Inl err)
    with s have e: "log' = log1" "res = Inl err" by auto
    show ?thesis
    proof (cases err)
      case (KeyError k)
      with windows_loop_KeyError[of client ?pages ?P "[1..?P]" log "[]" log1 k] w Inl e
      show ?thesis unfolding run_shape_def by blast
    next
      case ValueError
      with windows_loop_not_ValueError[of client ?pages ?P "[1..?P]" log "[]" log1] w Inl
      show ?thesis by simp
    next
      case (ServiceError x)
      with windows_loop_ServiceError[of client ?pages ?P "[1..?P]" log "[]" log1 x] w Inl e
      show ?thesis unfolding run_shape_def by blast
    qed
  qed
qed

lemma extract_rules_shape:
  assumes "extract_rules_from_markdown client content ov = (log, res)"
  shows "run_shape client [] log res"
proof (cases "case ov of None \<Rightarrow> int (length (parse_markdown_by_pages content)) > 10 | Some b \<Rightarrow> b")
  case True
  with assms have "extract_rules_from_markdown_sliding_window client [] content = (log, res)"
    by (simp add: extract_rules_from_markdown_def Let_def)
  then show ?thesis by (rule sliding_window_shape)
next
  case False
  with assms have "extract_rules_from_markdown_single_pass client [] content = (log, res)"
    by (simp add: extract_rules_from_markdown_def Let_def)
  then show ?thesis by (rule single_pass_shape)
qed


lemma length_upto_nat: "length [1..P] = nat P"
  by simp

lemma set_window_pages:
  "set (window_pages P i) = {max 1 (i - 1) .. min P (i + 1)}"
  by (simp add: window_pages_def start_page_def end_page_def)

lemma window_pages_in_range: "1 \<le> i \<Longrightarrow> i \<le> P \<Longrightarrow> set (window_pages P i) \<subseteq> {1..P}"
  by (auto simp: set_window_pages)

lemma focus_in_window: "1 \<le> i \<Longrightarrow> i \<le> P \<Longrightarrow> i \<in> set (window_pages P i)"
  by (auto simp: set_window_pages)

lemma window_content_map:
  "window_content pages ks = Inr wc
   \<Longrightarrow> wc = map (\<lambda>n. ''## Page '' @ str n @ ''\<newline>\<newline>'' @ get pages n [] @ ''\<newline>'') ks"
  by (induction ks arbitrary: wc) (auto simp: get_def split: option.splits sum.splits)

lemma window_content_Inr_lookup:
  "window_content pages ks = Inr wc \<Longrightarrow> k \<in> set ks \<Longrightarrow> map_of pages k \<noteq> None"
  by (induction ks arbitrary: wc) (auto split: option.splits sum.splits)

lemma distinct_fold_store_page:
  "distinct (map fst acc) \<Longrightarrow> distinct (map fst (fold store_page ms acc))"
  by (induction ms arbitrary: acc) (simp_all add: store_page_def distinct_update)

lemma distinct_parse: "distinct (map fst (parse_markdown_by_pages s))"
  by (simp add: parse_markdown_by_pages_def distinct_fold_store_page)

lemma missing_key:
  assumes "distinct (map fst pages)" and "fst ` set pages \<noteq> {1..int (length pages)}"
  shows "\<exists>k\<in>{1..int (length pages)}. map_of pages k = None"
proof (rule ccontr)
  assume "\<not> (\<exists>k\<in>{1..int (length pages)}. map_of pages k = None)"
  then have sub: "{1..int (length pages)} \<subseteq> fst ` set pages"
    by (auto simp: map_of_eq_None_iff)
  have "card (fst ` set pages) = length pages"
    using assms(1) by (metis distinct_card set_map length_map)
  then have "card (fst ` set pages) = card {1..int (length pages)}" by simp
  with sub have "{1..int (length pages)} = fst ` set pages"
    by (intro card_subset_eq) auto
  with assms(2) show False by simp
qed

lemma single_pass_log:
  "fst (extract_rules_from_markdown_single_pass client [] content) = [single_pass_request content]"
  by (simp add: extract_rules_from_markdown_single_pass_def create_def)

lemma sliding_window_log_differs:
  assumes "3 < int (length (parse_markdown_by_pages content))"
  shows "fst (extract_rules_from_markdown_sliding_window client [] content) \<noteq> [single_pass_request content]"
proof
  let ?pages = "parse_markdown_by_pages content"
  let ?P = "int (length ?pages)"
  assume eq: "fst (extract_rules_from_markdown_sliding_window client [] content) = [single_pass_request content]"
  obtain log1 r1 where w: "windows_loop client ?pages ?P [1..?P] [] [] = (log1, r1)"
    by (cases "windows_loop client ?pages ?P [1..?P] [] []")
  from windows_loop_requests[OF w] have m: "\<forall>r\<in>set log1. max_tokens r = 1500" by simp
  have s: "max_tokens (single_pass_request content) = 4000"
    "length (messages (single_pass_request content)) = 2"
    by (simp_all add: single_pass_request_def)
  show False
  proof (cases r1)
    case (Inl e)
    with assms w eq have "log1 = [single_pass_request content]"
      by (simp add: sliding_window_large)
    with m s(1) show False by simp
  next
    case (Inr exts)
    with assms w eq have "log1 @ [consolidation_request ?P exts] = [single_pass_request content]"
      by (simp add: sliding_window_large create_def)
    then have "consolidation_request ?P exts = single_pass_request content" by simp
    then have "length (messages (consolidation_request ?P exts)) = 2" using s(2) by simp
    then show False by (simp add: consolidation_request_def)
  qed
qed

section \<open>Facts about the page extraction\<close>

lemma fst_extract_page: "fst (extract_page client img page_num) = page_num"
  by (simp add: extract_page_def split: outcome.splits)

lemma fst_page_result: "fst (page_result client images k) = int k + 1"
  by (simp add: page_result_def fst_extract_page)

lemma fold_update_fresh:
  "distinct (map fst (acc @ kvs))
   \<Longrightarrow> fold (\<lambda>(k, v) d. AList.update k v d) kvs acc = acc @ kvs"
proof (induction kvs arbitrary: acc)
  case Nil
  then show ?case by simp
next
  case (Cons kv kvs)
  obtain k v where kv: "kv = (k, v)" by (cases kv)
  have "k \<notin> fst ` set acc" using Cons.prems kv by auto
  then have u: "AList.update k v acc = acc @ [(k, v)]" by (rule update_fresh)
  have "distinct (map fst ((acc @ [(k, v)]) @ kvs))" using Cons.prems kv by simp
  from Cons.IH[OF this] show ?case by (simp add: kv u)
qed

lemma dict_distinct: "distinct (map fst kvs) \<Longrightarrow> dict kvs = kvs"
  using fold_update_fresh[of "[]" kvs] by (simp add: dict_def)

lemma futures_nth:
  "k < length images
   \<Longrightarrow> map (\<lambda>(i, img). (img, int i)) (List.enumerate 1 images) ! k = (images ! k, int k + 1)"
  by (simp add: nth_enumerate_eq)

lemma complete_lookup:
  assumes "futures = map (\<lambda>(i, img). (img, int i)) (List.enumerate 1 images)"
  shows "complete client futures j finished k
         = (case finished k of
              Some r \<Rightarrow> Some r
            | None \<Rightarrow> if k = j \<and> k < length images then Some (page_result client images k) else None)"
  unfolding assms
  by (auto simp: complete_def page_result_def nth_enumerate_eq add.commute split: option.splits)

lemma fold_complete_lookup:
  assumes "futures = map (\<lambda>(i, img). (img, int i)) (List.enumerate 1 images)"
  shows "fold (complete client futures) order finished k
         = (case finished k of
              Some r \<Rightarrow> Some r
            | None \<Rightarrow> if k \<in> set order \<and> k < length images
                      then Some (page_result client images k) else None)"
proof (induction order arbitrary: finished)
  case Nil
  then show ?case by (simp split: option.splits)
next
  case (Cons j order)
  have "fold (complete client futures) (j # order) finished k
        = fold (complete client futures) order (complete client futures j finished) k"
    by simp
  also have "\<dots> = (case complete client futures j finished k of
                      Some r \<Rightarrow> Some r
                    | None \<Rightarrow> if k \<in> set order \<and> k < length images
                              then Some (page_result client images k) else None)"
    by (rule Cons.IH)
  also have "\<dots> = (case finished k of
                      Some r \<Rightarrow> Some r
                    | None \<Rightarrow> if k \<in> set (j # order) \<and> k < length images
                              then Some (page_result client images k) else None)"
    unfolding complete_lookup[OF assms] by (auto split: option.splits)
  finally show ?case .
qed

lemma results_of_all:
  "\<forall>k\<in>set ks. finished k = Some (f k) \<Longrightarrow> results_of finished ks = Some (map f ks)"
  by (induction ks) simp_all

lemma page_results_keys:
  "map fst (map (page_result client images) [0..<n]) = map (\<lambda>k. int k + 1) [0..<n]"
  by (simp add: fst_page_result)

lemma page_results_distinct: "distinct (map fst (map (page_result client images) [0..<n]))"
  unfolding page_results_keys by (simp add: distinct_map inj_on_def)

lemma extract_parallel_result:
  assumes "1 \<le> max_workers" and "{0..<length images} \<subseteq> set order"
  shows "extract_parallel client images max_workers order
         = Some (Inr (map (page_result client images) [0..<length images]))"
proof -
  let ?futures = "map (\<lambda>(i, img). (img, int i)) (List.enumerate 1 images)"
  let ?finished = "fold (complete client ?futures) order Map.empty"
  have "?finished k = Some (page_result client images k)" if "k < length images" for k
  proof -
    from that assms(2) have "k \<in> set order" by auto
    with that show ?thesis
      by (simp only: fold_complete_lookup[OF refl, of client images order Map.empty k]) simp
  qed
  then have "\<forall>k\<in>set [0..<length images]. ?finished k = Some (page_result client images k)"
    by simp
  then have "results_of ?finished [0..<length images]
             = Some (map (page_result client images) [0..<length images])"
    by (rule results_of_all)
  with assms(1) show ?thesis
    by (simp add: extract_parallel_def Let_def dict_distinct[OF page_results_distinct])
qed

lemma upto_as_upt: "[1..int n] = map (\<lambda>k. int k + 1) [0..<n]"
proof (induction n)
  case 0
  show ?case by simp
next
  case (Suc n)
  have "[1..int (Suc n)] = [1..int n] @ [int n + 1]"
    by (simp add: upto_rec2 add.commute)
  with Suc show ?case by simp
qed

lemma map_of_page_results:
  assumes "k < n"
  shows "map_of (map (page_result client images) [0..<n]) (int k + 1)
         = Some (snd (page_result client images k))"
proof -
  have "page_result client images k = (int k + 1, snd (page_result client images k))"
    by (metis fst_page_result prod.collapse)
  then have "(int k + 1, snd (page_result client images k)) \<in> page_result client images ` {0..<n}"
    using assms by (metis atLeastLessThan_iff imageI le0)
  then have "(int k + 1, snd (page_result client images k)) \<in> set (map (page_result client images) [0..<n])"
    by simp
  with page_results_distinct[of client images n] show ?thesis
    by (simp only: map_of_eq_Some_iff)
qed

lemma md_pages_page_results:
  "md_pages (int n) (map (page_result client images) [0..<n])
   = concat (map (\<lambda>k. [''## Page '' @ str (int k + 1) @ ''\<newline>\<newline>'',
                         snd (page_result client images k),
                         ''\<newline>\<newline>---\<newline>\<newline>'']) [0..<n])"
proof -
  have "page_section (map (page_result client images) [0..<n]) (int k + 1)
        = [''## Page '' @ str (int k + 1) @ ''\<newline>\<newline>'', snd (page_result client images k),
           ''\<newline>\<newline>---\<newline>\<newline>'']" if "k < n" for k
    using map_of_page_results[OF that, of client images]
    by (simp add: page_section_def get_def)
  then have "map (\<lambda>k. page_section (map (page_result client images) [0..<n]) (int k + 1)) [0..<n]
             = map (\<lambda>k. [''## Page '' @ str (int k + 1) @ ''\<newline>\<newline>'',
                         snd (page_result client images k),
                         ''\<newline>\<newline>---\<newline>\<newline>'']) [0..<n]"
    by (intro map_cong) simp_all
  then show ?thesis
    by (simp only: md_pages_def upto_as_upt map_map comp_def)
qed

lemma map_of_page_results_page:
  assumes "1 \<le> m" and "m \<le> int n"
  shows "map_of (map (page_result client images) [0..<n]) m
         = Some (snd (extract_page client (images ! nat (m - 1)) m))"
proof -
  from assms have k: "nat (m - 1) < n" "int (nat (m - 1)) + 1 = m" by simp_all
  from map_of_page_results[OF k(1), of client images] k(2) show ?thesis
    by (simp add: page_result_def)
qed

lemma md_pages_page_results_upto:
  "md_pages (int n) (map (page_result client images) [0..<n])
   = concat (map (\<lambda>i. [''## Page '' @ str i @ ''\<newline>\<newline>'',
                         snd (extract_page client (images ! nat (i - 1)) i),
                         ''\<newline>\<newline>---\<newline>\<newline>'']) [1..int n])"
  by (simp add: md_pages_page_results upto_as_upt comp_def page_result_def)

lemma length_concat_triples: "length (concat (map (\<lambda>i. [f i, g i, h i]) xs)) = 3 * length xs"
  by (induction xs) simp_all

section \<open>Facts about the scan and the requests\<close>

lemma findall_unmatched: "match_page (c # cs) = None \<Longrightarrow> findall (c # cs) = findall cs"
  by (subst findall.simps) simp

lemma unmatched_prefix_iff:
  "unmatched_prefix pre t \<longleftrightarrow> (\<forall>k<length pre. match_page (drop k (pre @ t)) = None)"
  by (auto simp: unmatched_prefix_def list_all_iff)

lemma unmatched_prefix_Cons:
  "unmatched_prefix (c # pre) t \<longleftrightarrow> match_page (c # pre @ t) = None \<and> unmatched_prefix pre t"
proof
  assume a: "unmatched_prefix (c # pre) t"
  then have all: "\<And>k. k < Suc (length pre) \<Longrightarrow> match_page (drop k ((c # pre) @ t)) = None"
    unfolding unmatched_prefix_iff by simp
  from all[of 0] have h: "match_page (c # pre @ t) = None" by simp
  have "match_page (drop k (pre @ t)) = None" if "k < length pre" for k
    using all[of "Suc k"] that by simp
  then have "unmatched_prefix pre t"
    unfolding unmatched_prefix_iff by blast
  with h show "match_page (c # pre @ t) = None \<and> unmatched_prefix pre t" ..
next
  assume a: "match_page (c # pre @ t) = None \<and> unmatched_prefix pre t"
  then have tl: "\<And>k. k < length pre \<Longrightarrow> match_page (drop k (pre @ t)) = None"
    unfolding unmatched_prefix_iff by blast
  have "match_page (drop k ((c # pre) @ t)) = None" if "k < Suc (length pre)" for k
  proof (cases k)
    case 0
    with a show ?thesis by simp
  next
    case (Suc j)
    with that have "j < length pre" by simp
    from tl[OF this] Suc show ?thesis by simp
  qed
  then show "unmatched_prefix (c # pre) t"
    unfolding unmatched_prefix_iff by simp
qed

lemma findall_skip_prefix: "unmatched_prefix pre t \<Longrightarrow> findall (pre @ t) = findall t"
  by (induction pre) (simp_all add: unmatched_prefix_Cons findall_unmatched)

lemma findall_delimits:
  "m \<in> set (findall s)
   \<Longrightarrow> \<exists>pre rest. s = pre @ ''## Page '' @ fst m @ ''\<newline>\<newline>'' @ snd m @ rest
         \<and> fst m \<noteq> [] \<and> (\<forall>c\<in>set (fst m). is_digit c)
         \<and> (rest = [] \<or> prefix separator rest)
         \<and> (\<forall>k<length (snd m). \<not> prefix separator (drop k (snd m @ rest)))"
proof (induction s rule: findall.induct)
  case (1 s)
  show ?case
  proof (cases "match_page s")
    case None
    show ?thesis
    proof (cases s)
      case Nil
      with "1.prems" show ?thesis by (simp add: findall_Nil)
    next
      case (Cons c cs)
      with None "1.prems" have "m \<in> set (findall cs)" by (simp add: findall_unmatched)
      from "1.IH"(1)[OF None Cons this] obtain pre rest where
        p: "cs = pre @ ''## Page '' @ fst m @ ''\<newline>\<newline>'' @ snd m @ rest"
           "fst m \<noteq> []" "\<forall>c\<in>set (fst m). is_digit c" "rest = [] \<or> prefix separator rest"
           "\<forall>k<length (snd m). \<not> prefix separator (drop k (snd m @ rest))"
        by blast
      from p(1) Cons have "s = (c # pre) @ ''## Page '' @ fst m @ ''\<newline>\<newline>'' @ snd m @ rest"
        by simp
      with p(2-5) show ?thesis by blast
    qed
  next
    case (Some x)
    obtain ds body rest where x: "x = (ds, body, rest)" by (cases x)
    with Some have mp: "match_page s = Some (ds, body, rest)" by simp
    note d = match_page_SomeD[OF mp]
    from "1.prems" have "m = (ds, body) \<or> m \<in> set (findall rest)"
      by (simp add: findall_match[OF mp])
    then show ?thesis
    proof
      assume m: "m = (ds, body)"
      have "s = [] @ ''## Page '' @ fst m @ ''\<newline>\<newline>'' @ snd m @ rest"
        using d(1) m by simp
      moreover have "rest = [] \<or> prefix separator rest"
        using d(4) by (rule lazy_content_rest)
      moreover have "\<forall>k<length (snd m). \<not> prefix separator (drop k (snd m @ rest))"
        using lazy_content_shortest[OF d(4)] m by simp
      ultimately show ?thesis using d(2,3) m by (metis fst_conv)
    next
      assume "m \<in> set (findall rest)"
      from "1.IH"(2)[OF Some x[symmetric] refl this] obtain pre rest' where
        p: "rest = pre @ ''## Page '' @ fst m @ ''\<newline>\<newline>'' @ snd m @ rest'"
           "fst m \<noteq> []" "\<forall>c\<in>set (fst m). is_digit c" "rest' = [] \<or> prefix separator rest'"
           "\<forall>k<length (snd m). \<not> prefix separator (drop k (snd m @ rest'))"
        by blast
      from d(1) p(1)
      have "s = (''## Page '' @ ds @ ''\<newline>\<newline>'' @ body @ pre) @ ''## Page '' @ fst m @ ''\<newline>\<newline>'' @ snd m @ rest'"
        by simp
      with p(2-5) show ?thesis by blast
    qed
  qed
qed

lemma set_update_subset: "set (AList.update k v al) \<subseteq> insert (k, v) (set al)"
  by (induction al) auto

lemma set_fold_store_page:
  "set (fold store_page ms acc) \<subseteq> set acc \<union> page_entry ` set ms"
proof (induction ms arbitrary: acc)
  case Nil
  show ?case by simp
next
  case (Cons m ms)
  have "set (store_page m acc) \<subseteq> insert (page_entry m) (set acc)"
    unfolding store_page_def page_entry_def by (rule set_update_subset)
  with Cons[of "store_page m acc"] show ?case by auto
qed

lemma findall_first_page:
  assumes "ds \<noteq> []" and "\<forall>c\<in>set ds. is_digit c"
    and "unmatched_prefix pre (''## Page '' @ ds @ ''\<newline>\<newline>'' @ body @ rest)"
    and "list_all (\<lambda>k. \<not> prefix separator (drop k (body @ rest))) [0..<length body]"
    and "rest = [] \<or> prefix separator rest"
  shows "findall (pre @ ''## Page '' @ ds @ ''\<newline>\<newline>'' @ body @ rest) = (ds, body) # findall rest"
proof -
  have "lazy_content (body @ rest) = (body, rest)"
  proof (rule lazy_content_run)
    fix k assume "k < length body"
    with assms(4) show "\<not> prefix separator (drop k (body @ rest))"
      by (simp add: list_all_iff)
  qed (rule assms(5))
  with match_page_header[OF assms(1,2), of "body @ rest"]
  have "match_page (''## Page '' @ ds @ ''\<newline>\<newline>'' @ body @ rest) = Some (ds, body, rest)"
    by simp
  then have "findall (''## Page '' @ ds @ ''\<newline>\<newline>'' @ body @ rest) = (ds, body) # findall rest"
    by (rule findall_match)
  with findall_skip_prefix[OF assms(3)] show ?thesis by simp
qed





section \<open>Properties of the page parser\<close>

text \<open>
  C10. Duplicate page headers overwrite: for every input text and every page number that
  several matched sections carry, the returned dictionary holds for that number the
  stripped content of the last section matched with it. Nothing is rejected.
\<close>

theorem duplicate_page_overwrites:
  assumes "j < length (findall s)"
    and "int_of_digits (fst (findall s ! j)) = n"
    and "\<forall>j'. j < j' \<and> j' < length (findall s) \<longrightarrow> int_of_digits (fst (findall s ! j')) \<noteq> n"
  shows "map_of (parse_markdown_by_pages s) n = Some (strip (snd (findall s ! j)))"
  using map_of_fold_store_page_last[of j "findall s" n "[]"] assms
  by (simp add: parse_markdown_by_pages_def page_entry_def)

theorem duplicate_page_overwrites_witness:
  "findall ''## Page 1\<newline>\<newline>A\<newline>\<newline>---\<newline>\<newline>## Page 1\<newline>\<newline>B\<newline>\<newline>---\<newline>\<newline>'' = [(''1'', ''A''), (''1'', ''B'')]
   \<and> map_of (parse_markdown_by_pages ''## Page 1\<newline>\<newline>A\<newline>\<newline>---\<newline>\<newline>## Page 1\<newline>\<newline>B\<newline>\<newline>---\<newline>\<newline>'') 1 = Some ''B''"
proof -
  have f: "findall ''## Page 1\<newline>\<newline>A\<newline>\<newline>---\<newline>\<newline>## Page 1\<newline>\<newline>B\<newline>\<newline>---\<newline>\<newline>'' = [(''1'', ''A''), (''1'', ''B'')]"
    by code_simp
  have s: "strip ''B'' = ''B''" by code_simp
  have i: "int_of_digits ''1'' = 1" by code_simp
  show ?thesis
    using duplicate_page_overwrites[of 1 "''## Page 1\<newline>\<newline>A\<newline>\<newline>---\<newline>\<newline>## Page 1\<newline>\<newline>B\<newline>\<newline>---\<newline>\<newline>''" 1]
    by (simp add: f s i)
qed

text \<open>
  C4, as amended. Let the separator occur in no page content (the content written for
  page \<open>i\<close> is \<open>pages.get(i, "[Missing]")\<close>), not even across the content's end.
  Then writing the pages 1..P with the header and separator grammar and parsing the text
  again gives exactly P entries, in page order, and the entry of each page number is
  that page's content stripped of surrounding whitespace.
  Without the condition the claim fails: the pattern ends a page at the first separator,
  so a content that holds the separator is cut there, and a header after it in the same
  content becomes a page of its own.
\<close>

theorem page_roundtrip:
  assumes "\<forall>i\<in>{1..P}. separator_free (get pages i ''[Missing]'')"
  shows "parse_markdown_by_pages (concat (md_pages P pages))
           = map (\<lambda>i. (i, strip (get pages i ''[Missing]''))) [1..P]
         \<and> length (parse_markdown_by_pages (concat (md_pages P pages))) = nat P
         \<and> (\<forall>i\<in>{1..P}. map_of (parse_markdown_by_pages (concat (md_pages P pages))) i
                        = Some (strip (get pages i ''[Missing]'')))"
proof -
  have p: "parse_markdown_by_pages (concat (md_pages P pages))
           = map (\<lambda>i. (i, strip (get pages i ''[Missing]''))) [1..P]"
    using assms by (rule parse_sections)
  have "map_of (map (\<lambda>i. (i, strip (get pages i ''[Missing]''))) [1..P]) i
        = Some (strip (get pages i ''[Missing]''))" if "i \<in> {1..P}" for i
    using that by (simp add: map_of_map_restrict)
  with p show ?thesis by simp
qed

theorem page_roundtrip_witness:
  "separator_free ''a'' \<and> separator_free '' b ''
   \<and> parse_markdown_by_pages (concat (md_pages 2 [(1, ''a''), (2, '' b '')])) = [(1, ''a''), (2, ''b'')]"
proof -
  have h: "\<forall>i\<in>{1..2}. separator_free (get [(1, ''a''), (2, '' b '')] i ''[Missing]'')"
  proof
    fix i :: int assume "i \<in> {1..2}"
    then have "i = 1 \<or> i = 2" by auto
    then show "separator_free (get [(1, ''a''), (2, '' b '')] i ''[Missing]'')"
      by (auto simp: get_def separator_free_def separator_def)
  qed
  have u: "[1..2] = [1, 2::int]" by code_simp
  have s: "strip ''a'' = ''a''" "strip '' b '' = ''b''" by code_simp+
  have f: "separator_free ''a''" "separator_free '' b ''"
    by (simp_all add: separator_free_def separator_def)
  from page_roundtrip[OF h] f show ?thesis
    by (simp add: u get_def s)
qed

theorem page_roundtrip_counterexample:
  "parse_markdown_by_pages (concat (md_pages 1 [(1, ''a\<newline>\<newline>---\<newline>\<newline>## Page 7\<newline>\<newline>b'')]))
     = [(1, ''a''), (7, ''b'')]
   \<and> strip ''a\<newline>\<newline>---\<newline>\<newline>## Page 7\<newline>\<newline>b'' \<noteq> ''a''"
  by code_simp

text \<open>
  C3, as amended. For every input text, every page that the parser finds begins at a
  header \<open>## Page <N>\<close> followed by two newlines, anywhere in the text, and its content
  ends at the first separator after that or at the end of input, whichever comes first:
  the content holds no earlier separator and what follows it is the separator or
  nothing. Every entry of the returned dictionary is the number and the stripped content
  of such a page. The scan takes the first header before which the pattern matches
  nowhere, ends its page in this way and goes on after it. The next header does not end
  a page: for two headers with no separator after the first one, whatever precedes the
  first header, the first page's content runs to the end of input, the second header
  included, and the returned dictionary holds the first page only.
\<close>

theorem page_ends_at_separator:
  "(\<forall>m\<in>set (findall s).
      \<exists>pre rest. s = pre @ ''## Page '' @ fst m @ ''\<newline>\<newline>'' @ snd m @ rest
        \<and> fst m \<noteq> [] \<and> (\<forall>c\<in>set (fst m). is_digit c)
        \<and> (rest = [] \<or> prefix separator rest)
        \<and> (\<forall>k<length (snd m). \<not> prefix separator (drop k (snd m @ rest))))
   \<and> (\<forall>e\<in>set (parse_markdown_by_pages s).
        \<exists>m\<in>set (findall s). e = (int_of_digits (fst m), strip (snd m)))
   \<and> (ds \<noteq> [] \<and> (\<forall>c\<in>set ds. is_digit c)
        \<and> unmatched_prefix pre (''## Page '' @ ds @ ''\<newline>\<newline>'' @ body @ rest)
        \<and> list_all (\<lambda>k. \<not> prefix separator (drop k (body @ rest))) [0..<length body]
        \<and> (rest = [] \<or> prefix separator rest) \<longrightarrow>
      findall (pre @ ''## Page '' @ ds @ ''\<newline>\<newline>'' @ body @ rest) = (ds, body) # findall rest)
   \<and> (ds1 \<noteq> [] \<and> (\<forall>c\<in>set ds1. is_digit c)
        \<and> unmatched_prefix pre1 (''## Page '' @ ds1 @ ''\<newline>\<newline>'' @ c1 @ ''## Page '' @ ds2 @ ''\<newline>\<newline>'' @ c2)
        \<and> \<not> has_separator (c1 @ ''## Page '' @ ds2 @ ''\<newline>\<newline>'' @ c2) \<longrightarrow>
      parse_markdown_by_pages
        (pre1 @ ''## Page '' @ ds1 @ ''\<newline>\<newline>'' @ c1 @ ''## Page '' @ ds2 @ ''\<newline>\<newline>'' @ c2)
      = [(int_of_digits ds1, strip (c1 @ ''## Page '' @ ds2 @ ''\<newline>\<newline>'' @ c2))])"
proof (intro conjI ballI impI)
  fix m assume "m \<in> set (findall s)"
  then show "\<exists>pre rest. s = pre @ ''## Page '' @ fst m @ ''\<newline>\<newline>'' @ snd m @ rest
        \<and> fst m \<noteq> [] \<and> (\<forall>c\<in>set (fst m). is_digit c)
        \<and> (rest = [] \<or> prefix separator rest)
        \<and> (\<forall>k<length (snd m). \<not> prefix separator (drop k (snd m @ rest)))"
    by (rule findall_delimits)
next
  fix e assume "e \<in> set (parse_markdown_by_pages s)"
  with set_fold_store_page[of "findall s" "[]"] have "e \<in> page_entry ` set (findall s)"
    by (auto simp: parse_markdown_by_pages_def)
  then show "\<exists>m\<in>set (findall s). e = (int_of_digits (fst m), strip (snd m))"
    by (auto simp: page_entry_def)
next
  assume "ds \<noteq> [] \<and> (\<forall>c\<in>set ds. is_digit c)
        \<and> unmatched_prefix pre (''## Page '' @ ds @ ''\<newline>\<newline>'' @ body @ rest)
        \<and> list_all (\<lambda>k. \<not> prefix separator (drop k (body @ rest))) [0..<length body]
        \<and> (rest = [] \<or> prefix separator rest)"
  then show "findall (pre @ ''## Page '' @ ds @ ''\<newline>\<newline>'' @ body @ rest) = (ds, body) # findall rest"
    by (intro findall_first_page) simp_all
next
  let ?t = "c1 @ ''## Page '' @ ds2 @ ''\<newline>\<newline>'' @ c2"
  assume a: "ds1 \<noteq> [] \<and> (\<forall>c\<in>set ds1. is_digit c)
        \<and> unmatched_prefix pre1 (''## Page '' @ ds1 @ ''\<newline>\<newline>'' @ ?t)
        \<and> \<not> has_separator ?t"
  then have "list_all (\<lambda>k. \<not> prefix separator (drop k (?t @ []))) [0..<length ?t]"
    by (simp add: has_separator_def list_all_iff list_ex_iff)
  with a have "findall (pre1 @ ''## Page '' @ ds1 @ ''\<newline>\<newline>'' @ ?t @ []) = (ds1, ?t) # findall []"
    by (intro findall_first_page) simp_all
  then have "findall (pre1 @ ''## Page '' @ ds1 @ ''\<newline>\<newline>'' @ ?t) = [(ds1, ?t)]"
    by (simp add: findall_Nil)
  then show "parse_markdown_by_pages (pre1 @ ''## Page '' @ ds1 @ ''\<newline>\<newline>'' @ ?t)
             = [(int_of_digits ds1, strip ?t)]"
    by (simp add: parse_markdown_by_pages_def store_page_def)
qed

theorem page_ends_at_separator_witness:
  "unmatched_prefix ''# f.pdf\<newline>**Pages:** 2 | **Date:** D\<newline>\<newline>---\<newline>\<newline>''
     (''## Page '' @ ''1'' @ ''\<newline>\<newline>'' @ ''A\<newline>\<newline>'' @ ''## Page '' @ ''2'' @ ''\<newline>\<newline>'' @ ''B'')
   \<and> \<not> has_separator (''A\<newline>\<newline>'' @ ''## Page '' @ ''2'' @ ''\<newline>\<newline>'' @ ''B'')
   \<and> parse_markdown_by_pages
        (''# f.pdf\<newline>**Pages:** 2 | **Date:** D\<newline>\<newline>---\<newline>\<newline>'' @ ''## Page '' @ ''1'' @ ''\<newline>\<newline>'' @ ''A\<newline>\<newline>''
          @ ''## Page '' @ ''2'' @ ''\<newline>\<newline>'' @ ''B'')
       = [(1, ''A\<newline>\<newline>## Page 2\<newline>\<newline>B'')]
   \<and> findall
        (''# f.pdf\<newline>\<newline>---\<newline>\<newline>'' @ ''## Page '' @ ''1'' @ ''\<newline>\<newline>'' @ ''A\<newline>\<newline>## Page 2\<newline>\<newline>B''
          @ ''\<newline>\<newline>---\<newline>\<newline>## Page 3\<newline>\<newline>C'')
       = [(''1'', ''A\<newline>\<newline>## Page 2\<newline>\<newline>B''), (''3'', ''C'')]
   \<and> (\<exists>pre rest. ''intro\<newline>## Page 1\<newline>\<newline>A\<newline>\<newline>---\<newline>\<newline>Z''
          = pre @ ''## Page '' @ ''1'' @ ''\<newline>\<newline>'' @ ''A'' @ rest
        \<and> prefix separator rest)"
proof -
  let ?pre = "''# f.pdf\<newline>**Pages:** 2 | **Date:** D\<newline>\<newline>---\<newline>\<newline>''"
  let ?t = "''A\<newline>\<newline>'' @ ''## Page '' @ ''2'' @ ''\<newline>\<newline>'' @ ''B''"
  have u: "unmatched_prefix ?pre (''## Page '' @ ''1'' @ ''\<newline>\<newline>'' @ ?t)"
    by code_simp
  have h: "\<not> has_separator ?t"
    by code_simp
  have d: "''1'' \<noteq> [] \<and> (\<forall>c\<in>set ''1''. is_digit c)"
    by (simp add: is_digit_def)
  have i: "int_of_digits ''1'' = 1" by code_simp
  have s: "strip ?t = ''A\<newline>\<newline>## Page 2\<newline>\<newline>B''" by code_simp
  note thm4 = page_ends_at_separator[where ?ds1.0 = "''1''" and ?pre1.0 = ?pre and ?c1.0 = "''A\<newline>\<newline>''"
      and ?ds2.0 = "''2''" and ?c2.0 = "''B''", THEN conjunct2, THEN conjunct2, THEN conjunct2]
  from thm4 d u h
  have p: "parse_markdown_by_pages (?pre @ ''## Page '' @ ''1'' @ ''\<newline>\<newline>'' @ ?t)
           = [(int_of_digits ''1'', strip ?t)]"
    by blast
  let ?pre3 = "''# f.pdf\<newline>\<newline>---\<newline>\<newline>''"
  let ?body = "''A\<newline>\<newline>## Page 2\<newline>\<newline>B''"
  let ?rest = "''\<newline>\<newline>---\<newline>\<newline>## Page 3\<newline>\<newline>C''"
  have u3: "unmatched_prefix ?pre3 (''## Page '' @ ''1'' @ ''\<newline>\<newline>'' @ ?body @ ?rest)"
    by code_simp
  have b3: "list_all (\<lambda>k. \<not> prefix separator (drop k (?body @ ?rest))) [0..<length ?body]"
    by code_simp
  have r3: "?rest = [] \<or> prefix separator ?rest"
    by (simp add: separator_def)
  have f3: "findall ?rest = [(''3'', ''C'')]" by code_simp
  note thm3 = page_ends_at_separator[where ds = "''1''" and pre = ?pre3 and body = ?body
      and rest = ?rest, THEN conjunct2, THEN conjunct2, THEN conjunct1]
  from thm3 d u3 b3 r3
  have f: "findall (?pre3 @ ''## Page '' @ ''1'' @ ''\<newline>\<newline>'' @ ?body @ ?rest) = (''1'', ?body) # findall ?rest"
    by blast
  let ?s1 = "''intro\<newline>## Page 1\<newline>\<newline>A\<newline>\<newline>---\<newline>\<newline>Z''"
  have f1: "findall ?s1 = [(''1'', ''A'')]" by code_simp
  note thm1 = page_ends_at_separator[where s = ?s1, THEN conjunct1]
  from thm1 f1
  have "\<exists>pre rest. ?s1 = pre @ ''## Page '' @ fst (''1'', ''A'') @ ''\<newline>\<newline>'' @ snd (''1'', ''A'') @ rest
        \<and> fst (''1'', ''A'') \<noteq> [] \<and> (\<forall>c\<in>set (fst (''1'', ''A'')). is_digit c)
        \<and> (rest = [] \<or> prefix separator rest)
        \<and> (\<forall>k<length (snd (''1'', ''A'')). \<not> prefix separator (drop k (snd (''1'', ''A'') @ rest)))"
    by simp
  then obtain pre rest where
    e: "?s1 = pre @ ''## Page '' @ ''1'' @ ''\<newline>\<newline>'' @ ''A'' @ rest" "rest = [] \<or> prefix separator rest"
    by auto
  have "rest \<noteq> []"
  proof
    assume "rest = []"
    with e(1) have "last ?s1 = last (pre @ ''## Page 1\<newline>\<newline>A'')" by simp
    then show False by simp
  qed
  with e have e': "\<exists>pre rest. ?s1 = pre @ ''## Page '' @ ''1'' @ ''\<newline>\<newline>'' @ ''A'' @ rest \<and> prefix separator rest"
    by blast
  from u h p f e' show ?thesis
    by (simp only: i s f3 simp_thms)
qed

theorem next_header_counterexample:
  "parse_markdown_by_pages ''## Page 1\<newline>\<newline>A\<newline>\<newline>## Page 2\<newline>\<newline>B''
     = [(1, ''A\<newline>\<newline>## Page 2\<newline>\<newline>B'')]
   \<and> map_of (parse_markdown_by_pages ''## Page 1\<newline>\<newline>A\<newline>\<newline>## Page 2\<newline>\<newline>B'') 1 \<noteq> Some ''A''
   \<and> map_of (parse_markdown_by_pages ''## Page 1\<newline>\<newline>A\<newline>\<newline>## Page 2\<newline>\<newline>B'') 2 = None"
  by code_simp

section \<open>Properties of the rule extraction\<close>

text \<open>
  C8. A failing analysis call aborts stage 2. For every run of
  \<open>extract_rules_from_markdown\<close>: if any call it made raised (a window call, the
  consolidation call or the single-pass call), the run ends with that exception and no
  report; the failing call is the last call made and every call before it returned.
  When the run returns a report, every call returned and the report is the answer to
  the last call. The result is a whole report or an error: there is no marker for a
  failed window and no partial report.
\<close>

theorem analysis_failure_aborts:
  assumes "extract_rules_from_markdown client content ov = (log, res)"
  shows "(\<forall>e. Raised e \<in> set (outcomes client log) \<longrightarrow> res = Inl (ServiceError e))
       \<and> (\<forall>e. res = Inl (ServiceError e) \<longrightarrow>
             (\<exists>rs. outcomes client log = map Returned rs @ [Raised e]))
       \<and> (\<forall>report. res = Inr report \<longrightarrow>
             (\<exists>rs. outcomes client log = map Returned rs @ [Returned report]))"
proof -
  from extract_rules_shape[OF assms] have "run_shape client [] log res" .
  then show ?thesis
    unfolding run_shape_def outcomes_Nil by (elim disjE exE conjE) auto
qed

theorem analysis_failure_aborts_witness:
  "outcomes (\<lambda>log req. if length log = 1 then Raised ''boom'' else Returned ''ok'')
     (fst (extract_rules_from_markdown
        (\<lambda>log req. if length log = 1 then Raised ''boom'' else Returned ''ok'')
        (concat (md_pages 4 [])) (Some True)))
   = [Returned ''ok'', Raised ''boom'']
   \<and> snd (extract_rules_from_markdown
        (\<lambda>log req. if length log = 1 then Raised ''boom'' else Returned ''ok'')
        (concat (md_pages 4 [])) (Some True))
     = Inl (ServiceError ''boom'')"
proof -
  let ?client = "\<lambda>log req. if length log = 1 then Raised ''boom'' else Returned ''ok''"
  let ?run = "extract_rules_from_markdown ?client (concat (md_pages 4 [])) (Some True)"
  have o: "outcomes ?client (fst ?run) = [Returned ''ok'', Raised ''boom'']"
    by code_simp
  have "?run = (fst ?run, snd ?run)" by simp
  from analysis_failure_aborts[OF this] o show ?thesis by simp
qed



text \<open>
  C9. P is the number of entries of the parsed dictionary. When its keys are exactly
  1..P, every lookup \<open>pages[page_num]\<close> of every window succeeds and the sliding
  window never ends with \<open>KeyError\<close>. The precondition is needed: when P > 3 and
  the keys are not 1..P, a run whose service calls all return ends with \<open>KeyError\<close>.
\<close>

theorem contiguous_pages_lookups_succeed:
  assumes "pages = parse_markdown_by_pages content" and "P = int (length pages)"
  shows "(fst ` set pages = {1..P} \<longrightarrow>
            (\<forall>i\<in>{1..P}. \<forall>n\<in>set (window_pages P i). map_of pages n \<noteq> None)
          \<and> (\<forall>k. snd (extract_rules_from_markdown_sliding_window client log content) \<noteq> Inl (KeyError k)))
       \<and> (3 < P \<and> fst ` set pages \<noteq> {1..P} \<and> (\<forall>l r. \<exists>c. client l r = Returned c) \<longrightarrow>
            (\<exists>k. snd (extract_rules_from_markdown_sliding_window client log content) = Inl (KeyError k)))"
proof (intro conjI impI)
  assume keys: "fst ` set pages = {1..P}"
  show look: "\<forall>i\<in>{1..P}. \<forall>n\<in>set (window_pages P i). map_of pages n \<noteq> None"
  proof (intro ballI)
    fix i n assume "i \<in> {1..P}" "n \<in> set (window_pages P i)"
    with window_pages_in_range[of i P] have "n \<in> {1..P}" by auto
    with keys show "map_of pages n \<noteq> None" by (simp add: map_of_eq_None_iff)
  qed
  show "\<forall>k. snd (extract_rules_from_markdown_sliding_window client log content) \<noteq> Inl (KeyError k)"
  proof (intro allI notI)
    fix k
    assume k: "snd (extract_rules_from_markdown_sliding_window client log content) = Inl (KeyError k)"
    show False
    proof (cases "P \<le> 3")
      case True
      with k show False
        unfolding assms
        by (simp add: sliding_window_small create_def split: outcome.splits)
    next
      case False
      obtain log1 r1 where w: "windows_loop client pages P [1..P] log [] = (log1, r1)"
        by (cases "windows_loop client pages P [1..P] log []")
      have s: "snd (case r1 of Inl e \<Rightarrow> (log1, Inl e)
                 | Inr exts \<Rightarrow> create client log1 (consolidation_request P exts)) = Inl (KeyError k)"
        using False k w unfolding assms by (simp add: sliding_window_large)
      have "r1 = Inl (KeyError k)"
        using s by (cases r1) (auto simp: create_def split: outcome.splits)
      with windows_loop_KeyError[of client pages P "[1..P]" log "[]" log1 k] w
      obtain i where i: "i \<in> {1..P}" "window_call pages P i = Inl (KeyError k)" by auto
      from window_call_Inl[OF i(2)] obtain n where
        "n \<in> set (window_pages P i)" "map_of pages n = None" by blast
      with look i(1) show False by blast
    qed
  qed
next
  assume a: "3 < P \<and> fst ` set pages \<noteq> {1..P} \<and> (\<forall>l r. \<exists>c. client l r = Returned c)"
  have "distinct (map fst pages)" unfolding assms(1) by (rule distinct_parse)
  moreover from a have "fst ` set pages \<noteq> {1..int (length pages)}"
    unfolding assms(2) by blast
  ultimately have "\<exists>k\<in>{1..int (length pages)}. map_of pages k = None"
    by (rule missing_key)
  then obtain k where k: "k \<in> {1..P}" "map_of pages k = None"
    unfolding assms(2) by blast
  have "\<exists>e. window_call pages P k = Inl e"
  proof (cases "window_call pages P k")
    case (Inr req)
    then obtain wc where "window_content pages (window_pages P k) = Inr wc"
      by (auto simp: window_call_def split: sum.splits)
    moreover have "k \<in> set (window_pages P k)" using k(1) by (simp add: focus_in_window)
    ultimately have "map_of pages k \<noteq> None"
      by (rule window_content_Inr_lookup)
    with k(2) show ?thesis by simp
  qed blast
  with k(1) have "\<exists>i\<in>set [1..P]. \<exists>e. window_call pages P i = Inl e" by auto
  from windows_loop_hits_missing[of client "[1..P]" pages P log "[]"] a this
  obtain k' where "snd (windows_loop client pages P [1..P] log []) = Inl (KeyError k')" by blast
  then obtain log1 where "windows_loop client pages P [1..P] log [] = (log1, Inl (KeyError k'))"
    by (metis prod.collapse)
  then have "snd (extract_rules_from_markdown_sliding_window client log content) = Inl (KeyError k')"
    using a unfolding assms by (simp add: sliding_window_large)
  then show "\<exists>k. snd (extract_rules_from_markdown_sliding_window client log content) = Inl (KeyError k)"
    by blast
qed

theorem contiguous_pages_lookups_succeed_witness:
  "fst ` set (parse_markdown_by_pages (concat (md_pages 4 []))) = {1..4}
   \<and> (\<forall>k. snd (extract_rules_from_markdown_sliding_window (\<lambda>log req. Returned ''ok'') []
              (concat (md_pages 4 []))) \<noteq> Inl (KeyError k))
   \<and> parse_markdown_by_pages (concat (md_pages 3 []) @ ''## Page 5\<newline>\<newline>x\<newline>\<newline>---\<newline>\<newline>'')
       = [(1, ''[Missing]''), (2, ''[Missing]''), (3, ''[Missing]''), (5, ''x'')]
   \<and> (\<exists>k. snd (extract_rules_from_markdown_sliding_window (\<lambda>log req. Returned ''ok'') []
              (concat (md_pages 3 []) @ ''## Page 5\<newline>\<newline>x\<newline>\<newline>---\<newline>\<newline>'')) = Inl (KeyError k))"
proof -
  let ?c = "\<lambda>(log::request list) (req::request). Returned ''ok''"
  let ?gap = "concat (md_pages 3 []) @ ''## Page 5\<newline>\<newline>x\<newline>\<newline>---\<newline>\<newline>''"
  have p4: "parse_markdown_by_pages (concat (md_pages 4 []))
            = [(1, ''[Missing]''), (2, ''[Missing]''), (3, ''[Missing]''), (4, ''[Missing]'')]"
    by code_simp
  have k4: "fst ` set (parse_markdown_by_pages (concat (md_pages 4 []))) = {1..4}"
    unfolding p4 by auto
  have pg: "parse_markdown_by_pages ?gap
            = [(1, ''[Missing]''), (2, ''[Missing]''), (3, ''[Missing]''), (5, ''x'')]"
    by code_simp
  have "(5::int) \<in> {1, 2, 3, 5}" and "(5::int) \<notin> {1..4}" by simp_all
  then have "{1, 2, 3, 5} \<noteq> {1..4::int}" by metis
  then have kg: "fst ` set (parse_markdown_by_pages ?gap) \<noteq> {1..4}"
    unfolding pg by simp
  have a: "\<forall>k. snd (extract_rules_from_markdown_sliding_window ?c [] (concat (md_pages 4 []))) \<noteq> Inl (KeyError k)"
    using contiguous_pages_lookups_succeed[OF refl, of 4 "concat (md_pages 4 [])" ?c "[]"] k4
    by (simp add: p4)
  have b: "\<exists>k. snd (extract_rules_from_markdown_sliding_window ?c [] ?gap) = Inl (KeyError k)"
    using contiguous_pages_lookups_succeed[OF refl, of 4 ?gap ?c "[]"] kg
    by (simp add: pg)
  from k4 a pg b show ?thesis by blast
qed

text \<open>
  C6. For a focus page \<open>i\<close> of a P-page document, \<open>1 \<le> i \<le> P\<close>, the window is
  the pages from \<open>max(1, i-1)\<close> to \<open>min(P, i+1)\<close>: it holds the focus page, no page
  outside 1..P, three pages for an interior focus, and the request of the window names
  these bounds and carries exactly these pages. For P = 10 the windows of the focus
  pages 1, 5 and 10 are [1,2], [4,5,6] and [9,10].
\<close>

theorem window_bounds:
  assumes "1 \<le> i" and "i \<le> P"
  shows "window_pages P i = [max 1 (i - 1) .. min P (i + 1)]
       \<and> set (window_pages P i) \<subseteq> {1..P} \<and> i \<in> set (window_pages P i)
       \<and> (1 < i \<and> i < P \<longrightarrow> window_pages P i = [i - 1, i, i + 1])
       \<and> (\<forall>pages req. window_call pages P i = Inr req \<longrightarrow>
            req = Request ''gpt-4o''
                    [(''system'', window_system_prompt),
                     (''user'', ''Analyzing pages '' @ str (max 1 (i - 1)) @ ''-'' @ str (min P (i + 1))
                        @ '', focusing on page '' @ str i @ '':\<newline>\<newline>''
                        @ join ''\<newline>'' (map (\<lambda>n. ''## Page '' @ str n @ ''\<newline>\<newline>'' @ get pages n [] @ ''\<newline>'')
                            [max 1 (i - 1) .. min P (i + 1)]))]
                    1500)
       \<and> window_pages 10 1 = [1, 2] \<and> window_pages 10 5 = [4, 5, 6] \<and> window_pages 10 10 = [9, 10]"
proof (intro conjI)
  show w: "window_pages P i = [max 1 (i - 1) .. min P (i + 1)]"
    by (simp add: window_pages_def start_page_def end_page_def)
  show "set (window_pages P i) \<subseteq> {1..P}" using assms by (rule window_pages_in_range)
  show "i \<in> set (window_pages P i)" using assms by (rule focus_in_window)
  show "1 < i \<and> i < P \<longrightarrow> window_pages P i = [i - 1, i, i + 1]"
  proof
    assume a: "1 < i \<and> i < P"
    then have "window_pages P i = [i - 1 .. i + 1]" by (simp add: w)
    also have "\<dots> = [i - 1, i, i + 1]" by (simp add: upto.simps)
    finally show "window_pages P i = [i - 1, i, i + 1]" .
  qed
  show "\<forall>pages req. window_call pages P i = Inr req \<longrightarrow>
            req = Request ''gpt-4o''
                    [(''system'', window_system_prompt),
                     (''user'', ''Analyzing pages '' @ str (max 1 (i - 1)) @ ''-'' @ str (min P (i + 1))
                        @ '', focusing on page '' @ str i @ '':\<newline>\<newline>''
                        @ join ''\<newline>'' (map (\<lambda>n. ''## Page '' @ str n @ ''\<newline>\<newline>'' @ get pages n [] @ ''\<newline>'')
                            [max 1 (i - 1) .. min P (i + 1)]))]
                    1500"
  proof (intro allI impI)
    fix pages req assume "window_call pages P i = Inr req"
    then obtain wc where wc: "window_content pages (window_pages P i) = Inr wc"
      and r: "req = window_request P i (join ''\<newline>'' wc)"
      by (auto simp: window_call_def split: sum.splits)
    from window_content_map[OF wc] r
    show "req = Request ''gpt-4o''
                    [(''system'', window_system_prompt),
                     (''user'', ''Analyzing pages '' @ str (max 1 (i - 1)) @ ''-'' @ str (min P (i + 1))
                        @ '', focusing on page '' @ str i @ '':\<newline>\<newline>''
                        @ join ''\<newline>'' (map (\<lambda>n. ''## Page '' @ str n @ ''\<newline>\<newline>'' @ get pages n [] @ ''\<newline>'')
                            [max 1 (i - 1) .. min P (i + 1)]))]
                    1500"
      by (simp add: window_request_def w[symmetric] start_page_def end_page_def)
  qed
  show "window_pages 10 1 = [1, 2]" by code_simp
  show "window_pages 10 5 = [4, 5, 6]" by code_simp
  show "window_pages 10 10 = [9, 10]" by code_simp
qed

theorem window_bounds_witness:
  "window_pages 10 5 = [max 1 (5 - 1) .. min 10 (5 + 1)] \<and> window_pages 10 5 = [4, 5, 6]
   \<and> set (window_pages 10 5) \<subseteq> {1..10}
   \<and> window_pages 10 1 = [1, 2] \<and> window_pages 10 10 = [9, 10]"
  using window_bounds[of 5 10] by simp

text \<open>
  C2. The strategy depends only on the parsed page count P and the caller's override.
  Single-pass is the run that makes the single-pass request and nothing else. With no
  override it is used exactly when \<open>P \<le> 10\<close>; with the sliding window forced it is
  used exactly when \<open>P \<le> 3\<close>; with single-pass forced it is always used. In every
  other case the sliding window runs, on more than three pages.
\<close>

theorem strategy_selection:
  assumes "P = int (length (parse_markdown_by_pages content))"
  shows "(fst (extract_rules_from_markdown client content ov) = [single_pass_request content])
           = (case ov of None \<Rightarrow> P \<le> 10 | Some forced \<Rightarrow> (if forced then P \<le> 3 else True))
       \<and> extract_rules_from_markdown client content ov
           = (if (case ov of None \<Rightarrow> P \<le> 10 | Some forced \<Rightarrow> (if forced then P \<le> 3 else True))
              then extract_rules_from_markdown_single_pass client [] content
              else extract_rules_from_markdown_sliding_window client [] content)"
proof -
  let ?single = "case ov of None \<Rightarrow> P \<le> 10 | Some forced \<Rightarrow> (if forced then P \<le> 3 else True)"
  have small: "extract_rules_from_markdown_sliding_window client [] content
               = extract_rules_from_markdown_single_pass client [] content" if "P \<le> 3"
    using that unfolding assms
    by (simp add: sliding_window_small extract_rules_from_markdown_single_pass_def)
  have run: "extract_rules_from_markdown client content ov
           = (if ?single then extract_rules_from_markdown_single_pass client [] content
              else extract_rules_from_markdown_sliding_window client [] content)"
  proof (cases ov)
    case None
    then show ?thesis
      unfolding assms by (simp add: extract_rules_from_markdown_def Let_def)
  next
    case (Some forced)
    then show ?thesis
      using small unfolding assms by (simp add: extract_rules_from_markdown_def Let_def)
  qed
  have large: "3 < P" if "\<not> ?single"
    using that by (cases ov) (auto split: if_splits)
  have "(fst (extract_rules_from_markdown client content ov) = [single_pass_request content]) = ?single"
  proof (cases ?single)
    case True
    with run show ?thesis by (simp add: single_pass_log)
  next
    case False
    from large[OF False] have "3 < int (length (parse_markdown_by_pages content))"
      unfolding assms .
    from sliding_window_log_differs[OF this, of client] run False show ?thesis by simp
  qed
  with run show ?thesis by blast
qed

theorem strategy_selection_witness:
  "int (length (parse_markdown_by_pages (concat (md_pages 10 [])))) = 10
   \<and> fst (extract_rules_from_markdown (\<lambda>log req. Returned ''ok'') (concat (md_pages 10 [])) None)
       = [single_pass_request (concat (md_pages 10 []))]
   \<and> int (length (parse_markdown_by_pages (concat (md_pages 11 [])))) = 11
   \<and> fst (extract_rules_from_markdown (\<lambda>log req. Returned ''ok'') (concat (md_pages 11 [])) None)
       \<noteq> [single_pass_request (concat (md_pages 11 []))]
   \<and> int (length (parse_markdown_by_pages (concat (md_pages 3 [])))) = 3
   \<and> fst (extract_rules_from_markdown (\<lambda>log req. Returned ''ok'') (concat (md_pages 3 [])) (Some True))
       = [single_pass_request (concat (md_pages 3 []))]"
proof -
  have p10: "int (length (parse_markdown_by_pages (concat (md_pages 10 [])))) = 10" by code_simp
  have p11: "int (length (parse_markdown_by_pages (concat (md_pages 11 [])))) = 11" by code_simp
  have p3: "int (length (parse_markdown_by_pages (concat (md_pages 3 [])))) = 3" by code_simp
  from strategy_selection[OF p10[symmetric], of "\<lambda>log req. Returned ''ok''" None, THEN conjunct1]
       strategy_selection[OF p11[symmetric], of "\<lambda>log req. Returned ''ok''" None, THEN conjunct1]
       strategy_selection[OF p3[symmetric], of "\<lambda>log req. Returned ''ok''" "Some True", THEN conjunct1]
       p10 p11 p3
  show ?thesis by simp
qed

section \<open>Properties of the page extraction\<close>

text \<open>
  C1. For N page images, a worker bound W with \<open>1 \<le> W \<le> N\<close> and any order in which
  the N tasks finish, \<open>extract_parallel\<close> returns a dictionary whose keys are 1..N in
  increasing order, and the assembly loop writes exactly N page sections (3N strings):
  for i = 1..N the header of page i, the text extracted for page i and the separator. No
  section is \<open>[Missing]\<close>. For every other finishing order the dictionary and the
  written document are the same: the results are read future by future in submission
  order and keyed by page number.
\<close>

theorem coordinator_page_order:
  assumes "1 \<le> W" and "W \<le> int (length images)" and "{0..<length images} \<subseteq> set order"
  shows "\<exists>pages. extract_parallel client images W order = Some (Inr pages)
           \<and> map fst pages = [1..int (length images)]
           \<and> length (md_pages (int (length images)) pages) = 3 * length images
           \<and> md_pages (int (length images)) pages
               = concat (map (\<lambda>i. [''## Page '' @ str i @ ''\<newline>\<newline>'',
                                     snd (extract_page client (images ! nat (i - 1)) i),
                                     ''\<newline>\<newline>---\<newline>\<newline>'']) [1..int (length images)])
           \<and> (\<forall>order'. {0..<length images} \<subseteq> set order' \<longrightarrow>
                 extract_parallel client images W order' = Some (Inr pages)
                 \<and> pdf_to_markdown client name date (int (length images)) images W order'
                   = pdf_to_markdown client name date (int (length images)) images W order)"
proof (intro exI conjI allI impI)
  let ?pages = "map (page_result client images) [0..<length images]"
  show e: "extract_parallel client images W order = Some (Inr ?pages)"
    using assms(1,3) by (rule extract_parallel_result)
  show "map fst ?pages = [1..int (length images)]"
    by (simp only: page_results_keys upto_as_upt)
  show "md_pages (int (length images)) ?pages
        = concat (map (\<lambda>i. [''## Page '' @ str i @ ''\<newline>\<newline>'',
                              snd (extract_page client (images ! nat (i - 1)) i),
                              ''\<newline>\<newline>---\<newline>\<newline>'']) [1..int (length images)])"
    by (rule md_pages_page_results_upto)
  then show "length (md_pages (int (length images)) ?pages) = 3 * length images"
    by (simp only: length_concat_triples) simp
  fix order' assume "{0..<length images} \<subseteq> set order'"
  with assms(1) show e': "extract_parallel client images W order' = Some (Inr ?pages)"
    by (rule extract_parallel_result)
  show "pdf_to_markdown client name date (int (length images)) images W order'
        = pdf_to_markdown client name date (int (length images)) images W order"
    by (simp only: pdf_to_markdown_def e e')
qed

theorem coordinator_page_order_witness:
  "extract_parallel (\<lambda>n img. if n = 2 then Raised ''boom'' else Returned (img @ ''!''))
     [''a'', ''b'', ''c''] 2 [2, 0, 1]
   = Some (Inr [(1, ''a!''), (2, ''[Error: boom]''), (3, ''c!'')])
   \<and> extract_parallel (\<lambda>n img. if n = 2 then Raised ''boom'' else Returned (img @ ''!''))
     [''a'', ''b'', ''c''] 2 [0, 1, 2]
   = Some (Inr [(1, ''a!''), (2, ''[Error: boom]''), (3, ''c!'')])
   \<and> pdf_to_markdown (\<lambda>n img. if n = 2 then Raised ''boom'' else Returned (img @ ''!''))
        ''f.pdf'' ''D'' 3 [''a'', ''b'', ''c''] 2 [0, 1, 2]
     = pdf_to_markdown (\<lambda>n img. if n = 2 then Raised ''boom'' else Returned (img @ ''!''))
        ''f.pdf'' ''D'' 3 [''a'', ''b'', ''c''] 2 [2, 0, 1]"
proof -
  let ?client = "\<lambda>(n::int) img. if n = 2 then Raised ''boom'' else Returned (img @ ''!'')"
  have h: "(1::int) \<le> 2" "(2::int) \<le> int (length [''a'', ''b'', ''c''])"
    "{0..<length [''a'', ''b'', ''c'']} \<subseteq> set [2, 0, 1::nat]"
    by auto
  have h': "{0..<length [''a'', ''b'', ''c'']} \<subseteq> set [0, 1, 2::nat]" by auto
  have v: "extract_parallel ?client [''a'', ''b'', ''c''] 2 [2, 0, 1]
           = Some (Inr [(1, ''a!''), (2, ''[Error: boom]''), (3, ''c!'')])"
    by (simp add: extract_parallel_def complete_def extract_page_def dict_def enumerate_eq_zip
        upt_rec numeral_2_eq_2 numeral_3_eq_3)
  from coordinator_page_order[OF h, of ?client "''f.pdf''" "''D''"] obtain pages where
    p: "extract_parallel ?client [''a'', ''b'', ''c''] 2 [2, 0, 1] = Some (Inr pages)"
    and i: "\<forall>order'. {0..<length [''a'', ''b'', ''c'']} \<subseteq> set order' \<longrightarrow>
              extract_parallel ?client [''a'', ''b'', ''c''] 2 order' = Some (Inr pages)
              \<and> pdf_to_markdown ?client ''f.pdf'' ''D'' (int (length [''a'', ''b'', ''c''])) [''a'', ''b'', ''c''] 2 order'
                = pdf_to_markdown ?client ''f.pdf'' ''D'' (int (length [''a'', ''b'', ''c''])) [''a'', ''b'', ''c''] 2 [2, 0, 1]"
    by blast
  from p v have pages: "pages = [(1, ''a!''), (2, ''[Error: boom]''), (3, ''c!'')]" by simp
  from i h' have "extract_parallel ?client [''a'', ''b'', ''c''] 2 [0, 1, 2] = Some (Inr pages)
      \<and> pdf_to_markdown ?client ''f.pdf'' ''D'' (int (length [''a'', ''b'', ''c''])) [''a'', ''b'', ''c''] 2 [0, 1, 2]
        = pdf_to_markdown ?client ''f.pdf'' ''D'' (int (length [''a'', ''b'', ''c''])) [''a'', ''b'', ''c''] 2 [2, 0, 1]"
    by blast
  with v pages show ?thesis by simp
qed

text \<open>
  C5. If the service call for page n raises with message e, the dictionary entry of page
  n is the marker \<open>[Error: e]\<close>; every page whose call returned holds exactly the
  returned content, and every page other than n holds what its own \<open>extract_page\<close>
  gives; \<open>extract_parallel\<close> and \<open>pdf_to_markdown\<close> still return, and the
  dictionary has N entries.
\<close>

theorem page_failure_isolated:
  assumes "1 \<le> W" and "W \<le> int (length images)" and "{0..<length images} \<subseteq> set order"
    and "1 \<le> n" and "n \<le> int (length images)"
    and "client n (images ! nat (n - 1)) = Raised e"
  shows "\<exists>pages. extract_parallel client images W order = Some (Inr pages)
           \<and> length pages = length images
           \<and> map_of pages n = Some (''[Error: '' @ e @ '']'')
           \<and> (\<forall>m c. 1 \<le> m \<and> m \<le> int (length images) \<and> client m (images ! nat (m - 1)) = Returned c
                 \<longrightarrow> map_of pages m = Some c)
           \<and> (\<forall>m. 1 \<le> m \<and> m \<le> int (length images) \<and> m \<noteq> n
                 \<longrightarrow> map_of pages m = Some (snd (extract_page client (images ! nat (m - 1)) m)))
           \<and> (\<exists>doc. pdf_to_markdown client name date (int (length images)) images W order
                 = Some (Inr doc))"
proof (intro exI conjI allI impI)
  let ?pages = "map (page_result client images) [0..<length images]"
  show e: "extract_parallel client images W order = Some (Inr ?pages)"
    using assms(1,3) by (rule extract_parallel_result)
  show "length ?pages = length images" by simp
  show "map_of ?pages n = Some (''[Error: '' @ e @ '']'')"
    using map_of_page_results_page[OF assms(4,5), of client images] assms(6)
    by (simp add: extract_page_def)
  show "map_of ?pages m = Some c"
    if "1 \<le> m \<and> m \<le> int (length images) \<and> client m (images ! nat (m - 1)) = Returned c" for m c
    using map_of_page_results_page[of m "length images" client images] that
    by (simp add: extract_page_def)
  show "map_of ?pages m = Some (snd (extract_page client (images ! nat (m - 1)) m))"
    if "1 \<le> m \<and> m \<le> int (length images) \<and> m \<noteq> n" for m
    using map_of_page_results_page[of m "length images" client images] that by simp
  show "pdf_to_markdown client name date (int (length images)) images W order
        = Some (Inr (concat ([''# '' @ name @ ''\<newline>'',
              ''**Pages:** '' @ str (int (length images)) @ '' | **Date:** '' @ date @ ''\<newline>\<newline>---\<newline>\<newline>'']
             @ md_pages (int (length images)) ?pages)))"
    by (simp only: pdf_to_markdown_def e option.case sum.case)
qed

theorem page_failure_isolated_witness:
  "extract_parallel (\<lambda>n img. if n = 2 then Raised ''boom'' else Returned (img @ ''!''))
     [''a'', ''b'', ''c''] 3 [1, 2, 0]
   = Some (Inr [(1, ''a!''), (2, ''[Error: boom]''), (3, ''c!'')])
   \<and> (\<exists>pages. extract_parallel (\<lambda>n img. if n = 2 then Raised ''boom'' else Returned (img @ ''!''))
         [''a'', ''b'', ''c''] 3 [1, 2, 0] = Some (Inr pages)
       \<and> length pages = 3 \<and> map_of pages 2 = Some ''[Error: boom]'')"
proof -
  let ?client = "\<lambda>(n::int) img. if n = 2 then Raised ''boom'' else Returned (img @ ''!'')"
  have h: "(1::int) \<le> 3" "(3::int) \<le> int (length [''a'', ''b'', ''c''])"
    "{0..<length [''a'', ''b'', ''c'']} \<subseteq> set [1, 2, 0::nat]"
    "(1::int) \<le> 2" "(2::int) \<le> int (length [''a'', ''b'', ''c''])"
    "?client 2 ([''a'', ''b'', ''c''] ! nat (2 - 1)) = Raised ''boom''"
    by auto
  have v: "extract_parallel ?client [''a'', ''b'', ''c''] 3 [1, 2, 0]
           = Some (Inr [(1, ''a!''), (2, ''[Error: boom]''), (3, ''c!'')])"
    by (simp add: extract_parallel_def complete_def extract_page_def dict_def enumerate_eq_zip
        upt_rec numeral_2_eq_2 numeral_3_eq_3)
  from page_failure_isolated[where client = ?client and images = "[''a'', ''b'', ''c'']" and W = 3
         and order = "[1, 2, 0]" and n = 2 and e = "''boom''" and name = "''f.pdf''" and date = "''D''",
         OF h] v
  show ?thesis by auto
qed

end
